theory Spec2Isabelle
  imports Complex_Main
begin

section \<open>Values of the host language\<close>

text \<open>
  The simulation of \<^verbatim>\<open>script.js\<close> keeps its nodes as objects: the array \<^verbatim>\<open>nodes\<close> and the
  closures handed to \<^verbatim>\<open>setTimeout\<close> hold references to them, and two references may name the
  same object. Objects therefore live in a store indexed by references. Numbers are IEEE
  doubles in the source and real numbers here; integer-valued quantities (array lengths,
  \<^verbatim>\<open>Math.floor\<close> results, \<^verbatim>\<open>Date.now()\<close>) are \<open>nat\<close> or \<open>int\<close>.
\<close>

type_synonym ref = nat

datatype error = TypeError

record Vector3 =
  vx :: real
  vy :: real
  vz :: real

definition Distance :: "Vector3 \<Rightarrow> Vector3 \<Rightarrow> real" where
  "Distance a b = sqrt ((vx a - vx b)\<^sup>2 + (vy a - vy b)\<^sup>2 + (vz a - vz b)\<^sup>2)"

text \<open>\<^verbatim>\<open>xs[i]\<close> for an integer index: \<^verbatim>\<open>undefined\<close> (here \<open>None\<close>) outside the array.\<close>

definition elem_at :: "'a list \<Rightarrow> int \<Rightarrow> 'a option" where
  "elem_at xs i = (if 0 \<le> i \<and> nat i < length xs then Some (xs ! nat i) else None)"

text \<open>
  A \<^verbatim>\<open>Set\<close> is a duplicate-free list in insertion order, the order in which
  \<^verbatim>\<open>Array.from\<close> enumerates it.
\<close>

definition set_add :: "'a \<Rightarrow> 'a list \<Rightarrow> 'a list" where
  "set_add x xs = (if x \<in> set xs then xs else xs @ [x])"

definition set_delete :: "'a \<Rightarrow> 'a list \<Rightarrow> 'a list" where
  "set_delete x xs = removeAll x xs"

text \<open>
  The remainder operator \<^verbatim>\<open>a % b\<close> on numbers: the quotient is truncated towards zero, so
  the result has the sign of the dividend.
\<close>

definition js_rem :: "real \<Rightarrow> real \<Rightarrow> real" where
  "js_rem a b = a - b * of_int (if a / b < 0 then \<lceil>a / b\<rceil> else \<lfloor>a / b\<rfloor>)"

text \<open>Decimal rendering of a non-negative integer inside a template literal.\<close>

definition digit :: "nat \<Rightarrow> char" where
  "digit d = ''0123456789'' ! d"

fun digits :: "nat \<Rightarrow> string" where
  "digits n = (if n < 10 then [digit n] else digits (n div 10) @ [digit (n mod 10)])"

declare digits.simps [simp del]

section \<open>The data model\<close>

datatype Phase = DISCOVERY | SYNCING | PROCESSING | NETWORK_CHANGES

datatype packetType = block | transaction | peer

text \<open>
  A node object: its id, its \<^verbatim>\<open>connections\<close> set and the position of its mesh. Materials,
  colours and animations belong to the renderer and are not part of the state.
\<close>

record BitcoinNode =
  nodeId :: string
  connections :: "string list"
  position :: Vector3

text \<open>
  What the code asks of the renderer and of the host is recorded, in order, in a log:
  the connection line drawn by \<^verbatim>\<open>connectTo\<close>, packets, progress rings, the processing
  highlight, the disposal of a node that shuts down, and each run of
  \<^verbatim>\<open>updateInstructions\<close> with the phase it reads.
\<close>

datatype call =
    CreateLines ref ref
  | SendPacket ref ref packetType
  | ShowSyncProgress ref real
  | SetProcessing ref bool
  | Dispose ref
  | UpdateInstructions Phase

text \<open>The two callbacks given to \<^verbatim>\<open>setTimeout\<close>, each stored with its delay.\<close>

datatype timeout = ConnectLater ref ref | ProcessingDone ref

record state =
  speed :: real
  isRunning :: bool
  initialNodeCount :: real
  nodeCount :: nat
  currentStep :: real
  currentPhase :: Phase
  isDarkMode :: bool
  phaseTimer :: real
  heap :: "ref \<Rightarrow> BitcoinNode"
  allocated :: nat
  nodes :: "ref list"
  timeouts :: "(real \<times> timeout) list"
  calls :: "call list"

definition radius :: real where
  "radius = 5"

definition origin :: Vector3 where
  "origin = \<lparr>vx = 0, vy = 0, vz = 0\<rparr>"

section \<open>class BitcoinNode\<close>

text \<open>The constructor allocates a fresh object with an empty connection set.\<close>

definition newBitcoinNode :: "Vector3 \<Rightarrow> string \<Rightarrow> state \<Rightarrow> ref \<times> state" where
  "newBitcoinNode pos nid s =
     (allocated s,
      s\<lparr>heap := (heap s)(allocated s := \<lparr>nodeId = nid, connections = [], position = pos\<rparr>),
        allocated := Suc (allocated s)\<rparr>)"

definition addConnection :: "string \<Rightarrow> ref \<Rightarrow> state \<Rightarrow> state" where
  "addConnection otherNodeId this s =
     s\<lparr>heap := (heap s)(this := (heap s this)\<lparr>connections := set_add otherNodeId (connections (heap s this))\<rparr>)\<rparr>"

text \<open>
  \<^verbatim>\<open>connectTo\<close>: return at once when this node already lists the other id; otherwise add
  the other id here, then this id there (the second write sees the first when both
  references name one object), and draw the line.
\<close>

definition connectTo :: "ref \<Rightarrow> ref \<Rightarrow> state \<Rightarrow> state" where
  "connectTo this otherNode s =
     (if nodeId (heap s otherNode) \<in> set (connections (heap s this)) then s
      else let s1 = addConnection (nodeId (heap s otherNode)) this s;
               s2 = addConnection (nodeId (heap s1 this)) otherNode s1
           in s2\<lparr>calls := calls s2 @ [CreateLines this otherNode]\<rparr>)"

definition removeConnection :: "string \<Rightarrow> ref \<Rightarrow> state \<Rightarrow> state" where
  "removeConnection otherNodeId this s =
     s\<lparr>heap := (heap s)(this := (heap s this)\<lparr>connections := set_delete otherNodeId (connections (heap s this))\<rparr>)\<rparr>"

text \<open>
  \<^verbatim>\<open>shutdown(scene, nodes)\<close>: every node of the array that is not this object drops this
  id; then the meshes are disposed of.
\<close>

fun shutdown_forEach :: "ref \<Rightarrow> ref list \<Rightarrow> state \<Rightarrow> state" where
  "shutdown_forEach this [] s = s"
| "shutdown_forEach this (node # rest) s =
     shutdown_forEach this rest
       (if node \<noteq> this then removeConnection (nodeId (heap s this)) node s else s)"

definition shutdown :: "ref \<Rightarrow> ref list \<Rightarrow> state \<Rightarrow> state" where
  "shutdown this ns s = (let s1 = shutdown_forEach this ns s in s1\<lparr>calls := calls s1 @ [Dispose this]\<rparr>)"

text \<open>
  \<^verbatim>\<open>sendPacket\<close>: anything but a peer-discovery packet needs the target's id in this
  node's connection set; otherwise a warning is printed and nothing is sent.
\<close>

definition sendPacket :: "ref \<Rightarrow> ref \<Rightarrow> packetType \<Rightarrow> state \<Rightarrow> state" where
  "sendPacket this targetNode type s =
     (if type \<noteq> peer \<and> nodeId (heap s targetNode) \<notin> set (connections (heap s this)) then s
      else s\<lparr>calls := calls s @ [SendPacket this targetNode type]\<rparr>)"

definition showSyncProgress :: "ref \<Rightarrow> real \<Rightarrow> state \<Rightarrow> state" where
  "showSyncProgress this progress s = s\<lparr>calls := calls s @ [ShowSyncProgress this progress]\<rparr>"

definition setProcessing :: "ref \<Rightarrow> bool \<Rightarrow> state \<Rightarrow> state" where
  "setProcessing this isProcessing s = s\<lparr>calls := calls s @ [SetProcessing this isProcessing]\<rparr>"

section \<open>Membership changes\<close>

text \<open>
  Removal as \<^verbatim>\<open>handleNetworkChanges\<close> performs it for an index: read \<^verbatim>\<open>nodes[index]\<close>,
  splice it out of the array, shut it down against the spliced array, refresh
  \<^verbatim>\<open>nodeCount\<close>. Calling \<^verbatim>\<open>shutdown\<close> on \<^verbatim>\<open>undefined\<close> throws.
\<close>

definition splice1 :: "nat \<Rightarrow> 'a list \<Rightarrow> 'a list" where
  "splice1 i xs = take i xs @ drop (Suc i) xs"

definition removeNode :: "int \<Rightarrow> state \<Rightarrow> error + state" where
  "removeNode index s =
     (case elem_at (nodes s) index of
        None \<Rightarrow> Inl TypeError
      | Some node \<Rightarrow>
          let s1 = s\<lparr>nodes := splice1 (nat index) (nodes s)\<rparr>;
              s2 = shutdown node (nodes s1) s1
          in Inr (s2\<lparr>nodeCount := length (nodes s2)\<rparr>))"

text \<open>
  Addition: \<^verbatim>\<open>nodes.push(new BitcoinNode(scene, position, `node-${Date.now()}`))\<close> and the
  refresh of \<^verbatim>\<open>nodeCount\<close>; \<open>now\<close> is the value \<^verbatim>\<open>Date.now()\<close> returns.
\<close>

definition pushNode :: "Vector3 \<Rightarrow> string \<Rightarrow> state \<Rightarrow> state" where
  "pushNode pos nid s =
     (let (r, s1) = newBitcoinNode pos nid s;
          s2 = s1\<lparr>nodes := nodes s1 @ [r]\<rparr>
      in s2\<lparr>nodeCount := length (nodes s2)\<rparr>)"

definition addNode :: "Vector3 \<Rightarrow> nat \<Rightarrow> state \<Rightarrow> state" where
  "addNode pos now s = pushNode pos (''node-'' @ digits now) s"

text \<open>
  The peer selection written out in \<^verbatim>\<open>handleSyncingPhase\<close> and \<^verbatim>\<open>handleProcessingPhase\<close>:
  the ids of the connection set as an array, the entry at \<^verbatim>\<open>Math.floor(Math.random() * length)\<close>,
  and the first node of \<^verbatim>\<open>nodes\<close> with that id. \<open>u\<close> is the value of \<^verbatim>\<open>Math.random()\<close>.
\<close>

definition pickRandomConnectedPeer :: "real \<Rightarrow> ref \<Rightarrow> state \<Rightarrow> ref option" where
  "pickRandomConnectedPeer u node s =
     (let connectedNodeIds = connections (heap s node)
      in case elem_at connectedNodeIds \<lfloor>u * real (length connectedNodeIds)\<rfloor> of
           None \<Rightarrow> None
         | Some targetNodeId \<Rightarrow> find (\<lambda>n. nodeId (heap s n) = targetNodeId) (nodes s))"

section \<open>The connection graph\<close>

definition symmetric :: "state \<Rightarrow> bool" where
  "symmetric s =
     (\<forall>a \<in> set (nodes s). \<forall>b \<in> set (nodes s).
        nodeId (heap s b) \<in> set (connections (heap s a)) \<longrightarrow>
        nodeId (heap s a) \<in> set (connections (heap s b)))"

text \<open>The ids of the nodes of the array, in array order.\<close>

definition ids :: "state \<Rightarrow> string list" where
  "ids s = map (\<lambda>r. nodeId (heap s r)) (nodes s)"

datatype operation = Connect int int | RemoveNode int

text \<open>
  \<open>Connect i j\<close> is \<^verbatim>\<open>nodes[i].connectTo(nodes[j], scene)\<close>; it throws when either entry is
  \<^verbatim>\<open>undefined\<close>.
\<close>

fun apply_operation :: "operation \<Rightarrow> state \<Rightarrow> error + state" where
  "apply_operation (Connect i j) s =
     (case elem_at (nodes s) i of
        None \<Rightarrow> Inl TypeError
      | Some a \<Rightarrow> (case elem_at (nodes s) j of None \<Rightarrow> Inl TypeError | Some b \<Rightarrow> Inr (connectTo a b s)))"
| "apply_operation (RemoveNode i) s = removeNode i s"

fun run_operations :: "operation list \<Rightarrow> state \<Rightarrow> error + state" where
  "run_operations [] s = Inr s"
| "run_operations (x # xs) s =
     (case apply_operation x s of Inl e \<Rightarrow> Inl e | Inr s' \<Rightarrow> run_operations xs s')"

section \<open>The scheduler\<close>

text \<open>
  What one run of the render callback reads from outside the state: the frame time
  \<^verbatim>\<open>scene.getEngine().getDeltaTime()\<close>, the values of the successive calls of
  \<^verbatim>\<open>Math.random()\<close> (numbered from 0 within the run) and the value of \<^verbatim>\<open>Date.now()\<close>.
\<close>

record env =
  getDeltaTime :: real
  Math_random :: "nat \<Rightarrow> real"
  Date_now :: nat

definition updateInstructions :: "state \<Rightarrow> state" where
  "updateInstructions s = s\<lparr>calls := calls s @ [UpdateInstructions (currentPhase s)]\<rparr>"

definition setTimeout :: "timeout \<Rightarrow> real \<Rightarrow> state \<Rightarrow> state" where
  "setTimeout callback delay s = s\<lparr>timeouts := timeouts s @ [(delay, callback)]\<rparr>"

text \<open>
  The block every handler, and the callback after it, runs for its own phase: past the
  threshold, set the next phase, clear the timer, refresh the instructions.
\<close>

definition advance :: "real \<Rightarrow> Phase \<Rightarrow> state \<Rightarrow> state" where
  "advance threshold next s =
     (if phaseTimer s > threshold
      then updateInstructions (s\<lparr>currentPhase := next, phaseTimer := 0\<rparr>)
      else s)"

subsection \<open>handleDiscoveryPhase\<close>

definition discoveryCadence :: "state \<Rightarrow> bool" where
  "discoveryCadence s = (js_rem (currentStep s) (3 / speed s) < 1)"

text \<open>
  Two array reads at random indices. \<^verbatim>\<open>undefined !== undefined\<close> is false and ends the
  test; a defined node on one side only makes the test read a property of
  \<^verbatim>\<open>undefined\<close>, which throws.
\<close>

definition discoverPeers :: "env \<Rightarrow> state \<Rightarrow> error + state" where
  "discoverPeers e s =
     (let sourceNode = elem_at (nodes s) \<lfloor>Math_random e 0 * real (length (nodes s))\<rfloor>;
          targetNode = elem_at (nodes s) \<lfloor>Math_random e 1 * real (length (nodes s))\<rfloor>
      in case sourceNode of
           None \<Rightarrow> (case targetNode of None \<Rightarrow> Inr s | Some b \<Rightarrow> Inl TypeError)
         | Some a \<Rightarrow>
             (case targetNode of
                None \<Rightarrow> Inl TypeError
              | Some b \<Rightarrow>
                  Inr (if a \<noteq> b \<and> nodeId (heap s b) \<notin> set (connections (heap s a))
                       then setTimeout (ConnectLater a b) (500 / speed s) (sendPacket a b peer s)
                       else s)))"

definition handleDiscoveryPhase :: "env \<Rightarrow> state \<Rightarrow> error + state" where
  "handleDiscoveryPhase e s =
     (case (if discoveryCadence s then discoverPeers e s else Inr s) of
        Inl err \<Rightarrow> Inl err
      | Inr s1 \<Rightarrow> Inr (advance 5000 SYNCING s1))"

subsection \<open>handleSyncingPhase\<close>

definition confirmedLink :: "ref \<Rightarrow> ref \<Rightarrow> state \<Rightarrow> bool" where
  "confirmedLink a b s =
     (nodeId (heap s b) \<in> set (connections (heap s a)) \<and>
      nodeId (heap s a) \<in> set (connections (heap s b)))"

text \<open>
  The body of \<^verbatim>\<open>nodes.forEach\<close>; \<open>k\<close> counts the calls of \<^verbatim>\<open>Math.random()\<close> made so far. The
  second call happens only when the first test let the node through.
\<close>

fun syncing_forEach :: "env \<Rightarrow> ref list \<Rightarrow> nat \<Rightarrow> state \<Rightarrow> state" where
  "syncing_forEach e [] k s = s"
| "syncing_forEach e (node # rest) k s =
     (let progress = js_rem (phaseTimer s) 2000 / 2000;
          s1 = showSyncProgress node progress s
      in if Math_random e k < 0.05 * speed s1 \<and> length (connections (heap s1 node)) > 0
         then syncing_forEach e rest (k + 2)
                (case pickRandomConnectedPeer (Math_random e (k + 1)) node s1 of
                   None \<Rightarrow> s1
                 | Some targetNode \<Rightarrow>
                     if confirmedLink node targetNode s1 then sendPacket node targetNode block s1
                     else s1)
         else syncing_forEach e rest (k + 1) s1)"

definition handleSyncingPhase :: "env \<Rightarrow> state \<Rightarrow> error + state" where
  "handleSyncingPhase e s = Inr (advance 8000 PROCESSING (syncing_forEach e (nodes s) 0 s))"

subsection \<open>handleProcessingPhase\<close>

definition processingCadence :: "state \<Rightarrow> bool" where
  "processingCadence s = (js_rem (currentStep s) (5 / speed s) < 1)"

definition processTransaction :: "env \<Rightarrow> state \<Rightarrow> error + state" where
  "processTransaction e s =
     (case elem_at (nodes s) \<lfloor>Math_random e 0 * real (length (nodes s))\<rfloor> of
        None \<Rightarrow> Inl TypeError
      | Some sourceNode \<Rightarrow>
          Inr (if length (connections (heap s sourceNode)) > 0
               then (case pickRandomConnectedPeer (Math_random e 1) sourceNode s of
                       None \<Rightarrow> s
                     | Some targetNode \<Rightarrow>
                         if confirmedLink sourceNode targetNode s
                         then setTimeout (ProcessingDone sourceNode) (1000 / speed s)
                                (setProcessing sourceNode True
                                  (sendPacket sourceNode targetNode transaction s))
                         else s)
               else s))"

definition handleProcessingPhase :: "env \<Rightarrow> state \<Rightarrow> error + state" where
  "handleProcessingPhase e s =
     (case (if processingCadence s then processTransaction e s else Inr s) of
        Inl err \<Rightarrow> Inl err
      | Inr s1 \<Rightarrow> Inr (advance 6000 NETWORK_CHANGES s1))"

subsection \<open>handleNetworkChanges\<close>

definition minNodes :: nat where
  "minNodes = 2"

definition maxNodes :: "state \<Rightarrow> real" where
  "maxNodes s = max 20 (initialNodeCount s * 1.5)"

definition minDistance :: real where
  "minDistance = radius * 0.8"

definition ringPosition :: "real \<Rightarrow> real \<Rightarrow> Vector3" where
  "ringPosition r angle = \<lparr>vx = r * cos angle, vy = 0, vz = r * sin angle\<rparr>"

definition isTooClose :: "state \<Rightarrow> Vector3 \<Rightarrow> bool" where
  "isTooClose s p = list_ex (\<lambda>node. Distance (position (heap s node)) p < minDistance) (nodes s)"

text \<open>
  The \<^verbatim>\<open>do ... while (attempts < 10)\<close> loop. Each round draws an angle with the \<open>k\<close>-th call
  of \<^verbatim>\<open>Math.random()\<close>; a free candidate leaves the loop before the counter is raised.
  The result carries what the code reads after the loop.
\<close>

record placement =
  angle :: real
  candidate :: Vector3
  attempts :: nat
  drawn :: nat

function placementLoop :: "env \<Rightarrow> state \<Rightarrow> nat \<Rightarrow> nat \<Rightarrow> placement" where
  "placementLoop e s k n =
     (if \<not> isTooClose s (ringPosition radius (Math_random e k * pi * 2))
      then \<lparr>angle = Math_random e k * pi * 2,
            candidate = ringPosition radius (Math_random e k * pi * 2),
            attempts = n, drawn = Suc k\<rparr>
      else if Suc n < 10 then placementLoop e s (Suc k) (Suc n)
      else \<lparr>angle = Math_random e k * pi * 2,
            candidate = ringPosition radius (Math_random e k * pi * 2),
            attempts = Suc n, drawn = Suc k\<rparr>)"
  by pat_completeness auto
termination
  by (relation "measure (\<lambda>(e, s, k, n). 10 - n)") auto

declare placementLoop.simps [simp del]

text \<open>
  The position handed to the constructor: the accepted candidate, or after ten rejected
  candidates the last angle on a ring of \<^verbatim>\<open>radius * (1 + Math.random() * 0.4)\<close>. \<open>k\<close> is the
  number of random draws made before the loop.
\<close>

definition findPosition :: "env \<Rightarrow> state \<Rightarrow> nat \<Rightarrow> Vector3" where
  "findPosition e s k =
     (let p = placementLoop e s k 0
      in if attempts p \<ge> 10
         then ringPosition (radius * (1 + Math_random e (drawn p) * 0.4)) (angle p)
         else candidate p)"

definition changeMembership :: "env \<Rightarrow> state \<Rightarrow> error + state" where
  "changeMembership e s =
     (if js_rem (phaseTimer s) 2000 < 20 \<and> length (nodes s) \<ge> 2
      then (if Math_random e 0 < 0.5 \<and> length (nodes s) > minNodes
            then removeNode \<lfloor>Math_random e 1 * real (length (nodes s))\<rfloor> s
            else if real (length (nodes s)) < maxNodes s
            then Inr (addNode (findPosition e s 1) (Date_now e) s)
            else Inr s)
      else Inr s)"

text \<open>
  Leaving the phase: with fewer than two nodes, first push \<^verbatim>\<open>node-1\<close> opposite the first
  node (angle \<^verbatim>\<open>Math.PI\<close>).
\<close>

definition leaveNetworkChanges :: "state \<Rightarrow> state" where
  "leaveNetworkChanges s =
     (if phaseTimer s > 7000
      then (let s1 = (if length (nodes s) < 2 then pushNode (ringPosition radius pi) ''node-1'' s else s)
            in updateInstructions (s1\<lparr>currentPhase := DISCOVERY, phaseTimer := 0\<rparr>))
      else s)"

definition handleNetworkChanges :: "env \<Rightarrow> state \<Rightarrow> error + state" where
  "handleNetworkChanges e s =
     (case changeMembership e s of
        Inl err \<Rightarrow> Inl err
      | Inr s1 \<Rightarrow> Inr (leaveNetworkChanges s1))"

subsection \<open>The render callback\<close>

text \<open>
  \<^verbatim>\<open>scene.onBeforeRenderObservable\<close>: nothing when paused; otherwise add the scaled frame
  time to the timer, run the handler of the current phase, and repeat the handler's own
  threshold test.
\<close>

definition onBeforeRender :: "env \<Rightarrow> state \<Rightarrow> error + state" where
  "onBeforeRender e s =
     (if \<not> isRunning s then Inr s
      else let s0 = s\<lparr>phaseTimer := phaseTimer s + getDeltaTime e * speed s\<rparr>
           in case currentPhase s0 of
                DISCOVERY \<Rightarrow>
                  (case handleDiscoveryPhase e s0 of
                     Inl err \<Rightarrow> Inl err | Inr s1 \<Rightarrow> Inr (advance 5000 SYNCING s1))
              | SYNCING \<Rightarrow>
                  (case handleSyncingPhase e s0 of
                     Inl err \<Rightarrow> Inl err | Inr s1 \<Rightarrow> Inr (advance 8000 PROCESSING s1))
              | PROCESSING \<Rightarrow>
                  (case handleProcessingPhase e s0 of
                     Inl err \<Rightarrow> Inl err | Inr s1 \<Rightarrow> Inr (advance 6000 NETWORK_CHANGES s1))
              | NETWORK_CHANGES \<Rightarrow>
                  (case handleNetworkChanges e s0 of
                     Inl err \<Rightarrow> Inl err | Inr s1 \<Rightarrow> Inr (leaveNetworkChanges s1)))"

fun ticks :: "env list \<Rightarrow> state \<Rightarrow> error + state" where
  "ticks [] s = Inr s"
| "ticks (e # es) s = (case onBeforeRender e s of Inl err \<Rightarrow> Inl err | Inr s' \<Rightarrow> ticks es s')"

section \<open>The whole simulation\<close>

text \<open>
  The state \<^verbatim>\<open>createScene\<close> builds: \<^verbatim>\<open>simulationState\<close> as written, one node \<^verbatim>\<open>node-0\<close> at
  \<^verbatim>\<open>(radius, 0, 0)\<close>, and the instructions shown once. References not yet allocated hold
  a blank object that nothing reads.
\<close>

definition blank :: BitcoinNode where
  "blank = \<lparr>nodeId = [], connections = [], position = \<lparr>vx = 0, vy = 0, vz = 0\<rparr>\<rparr>"

definition initialState :: state where
  "initialState =
     \<lparr>speed = 1, isRunning = True, initialNodeCount = 1, nodeCount = 1, currentStep = 0,
      currentPhase = NETWORK_CHANGES, isDarkMode = True, phaseTimer = 6900,
      heap = (\<lambda>r. blank)(0 := \<lparr>nodeId = ''node-0'', connections = [],
                                position = \<lparr>vx = radius, vy = 0, vz = 0\<rparr>\<rparr>),
      allocated = 1, nodes = [0], timeouts = [],
      calls = [UpdateInstructions NETWORK_CHANGES]\<rparr>"

text \<open>A timeout that comes due runs its callback and leaves the pending list.\<close>

fun runCallback :: "timeout \<Rightarrow> state \<Rightarrow> state" where
  "runCallback (ConnectLater sourceNode targetNode) s = connectTo sourceNode targetNode s"
| "runCallback (ProcessingDone sourceNode) s = setProcessing sourceNode False s"

definition fireTimeout :: "nat \<Rightarrow> state \<Rightarrow> state" where
  "fireTimeout i s =
     (if i < length (timeouts s)
      then runCallback (snd (timeouts s ! i)) (s\<lparr>timeouts := splice1 i (timeouts s)\<rparr>)
      else s)"

text \<open>
  Everything that runs code of the simulation on the state: a frame, a timeout coming
  due, and the play/pause and theme buttons. (The reset button reloads the page, which
  ends the run and starts a new one from the initial state.)
\<close>

datatype event = Frame env | TimeoutDue nat | PlayPause | Theme

fun handle :: "event \<Rightarrow> state \<Rightarrow> error + state" where
  "handle (Frame e) s = onBeforeRender e s"
| "handle (TimeoutDue i) s = Inr (fireTimeout i s)"
| "handle PlayPause s = Inr (s\<lparr>isRunning := \<not> isRunning s\<rparr>)"
| "handle Theme s = Inr (s\<lparr>isDarkMode := \<not> isDarkMode s\<rparr>)"

fun run :: "event list \<Rightarrow> state \<Rightarrow> error + state" where
  "run [] s = Inr s"
| "run (ev # evs) s = (case handle ev s of Inl err \<Rightarrow> Inl err | Inr s' \<Rightarrow> run evs s')"

text \<open>
  What the host guarantees about an event: a frame time is not negative and
  \<^verbatim>\<open>Math.random()\<close> lies in \<open>[0, 1)\<close>; only a pending timeout comes due.
\<close>

definition unitInterval :: "(nat \<Rightarrow> real) \<Rightarrow> bool" where
  "unitInterval f = (\<forall>k. 0 \<le> f k \<and> f k < 1)"

fun possible :: "event \<Rightarrow> state \<Rightarrow> bool" where
  "possible (Frame e) s = (0 \<le> getDeltaTime e \<and> unitInterval (Math_random e))"
| "possible (TimeoutDue i) s = (i < length (timeouts s))"
| "possible PlayPause s = True"
| "possible Theme s = True"

inductive reachable :: "state \<Rightarrow> bool" where
  start: "reachable initialState"
| after: "reachable s \<Longrightarrow> possible ev s \<Longrightarrow> handle ev s = Inr s' \<Longrightarrow> reachable s'"

text \<open>The fixed cycle of phases and the threshold of each.\<close>

fun nextPhase :: "Phase \<Rightarrow> Phase" where
  "nextPhase DISCOVERY = SYNCING"
| "nextPhase SYNCING = PROCESSING"
| "nextPhase PROCESSING = NETWORK_CHANGES"
| "nextPhase NETWORK_CHANGES = DISCOVERY"

fun threshold :: "Phase \<Rightarrow> real" where
  "threshold DISCOVERY = 5000"
| "threshold SYNCING = 8000"
| "threshold PROCESSING = 6000"
| "threshold NETWORK_CHANGES = 7000"

text \<open>The phases \<^verbatim>\<open>updateInstructions\<close> was run for, oldest first.\<close>

fun notified :: "call list \<Rightarrow> Phase list" where
  "notified [] = []"
| "notified (UpdateInstructions p # cs) = p # notified cs"
| "notified (c # cs) = notified cs"

text \<open>
  Two states agree on \<^verbatim>\<open>simulationState\<close> apart from \<^verbatim>\<open>nodeCount\<close>, and on the
  instructions shown so far.
\<close>

definition sameSchedule :: "state \<Rightarrow> state \<Rightarrow> bool" where
  "sameSchedule s s' =
     (speed s' = speed s \<and> isRunning s' = isRunning s \<and>
      initialNodeCount s' = initialNodeCount s \<and> currentStep s' = currentStep s \<and>
      currentPhase s' = currentPhase s \<and> isDarkMode s' = isDarkMode s \<and>
      phaseTimer s' = phaseTimer s \<and> notified (calls s') = notified (calls s))"

section \<open>Example states\<close>

text \<open>
  The network after the forced addition of \<^verbatim>\<open>node-1\<close>, and the same with a third node
  that joined at \<^verbatim>\<open>Date.now() = 1700000000000\<close>.
\<close>

definition twoNodes :: state where
  "twoNodes = pushNode (ringPosition radius pi) ''node-1'' initialState"

definition threeNodes :: state where
  "threeNodes = addNode (ringPosition radius (pi / 2)) 1700000000000 twoNodes"

text \<open>A 16 ms frame in which every random draw is one half.\<close>

definition frame16 :: env where
  "frame16 = \<lparr>getDeltaTime = 16, Math_random = (\<lambda>k. 1 / 2), Date_now = 1700000000000\<rparr>"

text \<open>The state the first frame of 200 ms produces.\<close>

definition afterFirstFrame :: state where
  "afterFirstFrame = updateInstructions (twoNodes\<lparr>currentPhase := DISCOVERY, phaseTimer := 0\<rparr>)"

text \<open>A 16 ms frame in which every random draw is zero.\<close>

definition frameZero :: env where
  "frameZero = \<lparr>getDeltaTime = 16, Math_random = (\<lambda>k. 0), Date_now = 1700000000000\<rparr>"

section \<open>A run in which two nodes join at the same clock value\<close>

text \<open>
  Frames in which every random draw is one half, and frames in which the first draw is
  3/4 (so the network-changes handler adds a node) and every later draw is 1/4 (the angle
  \<open>\<pi>/2\<close>). The clock reads 1700000000000 in all of them.
\<close>


definition quietFrame :: "real \<Rightarrow> env" where
  "quietFrame d = \<lparr>getDeltaTime = d, Math_random = (\<lambda>k. 1 / 2), Date_now = 1700000000000\<rparr>"

definition joinFrame :: "real \<Rightarrow> env" where
  "joinFrame d = \<lparr>getDeltaTime = d, Math_random = (\<lambda>k. if k = 0 then 3 / 4 else 1 / 4),
                  Date_now = 1700000000000\<rparr>"

definition inSyncing :: state where
  "inSyncing = updateInstructions (afterFirstFrame\<lparr>currentPhase := SYNCING, phaseTimer := 0\<rparr>)"

definition inProcessing :: state where
  "inProcessing =
     updateInstructions
       ((showSyncProgress 1 (1 / 2000) (showSyncProgress 0 (1 / 2000) inSyncing))
          \<lparr>currentPhase := PROCESSING, phaseTimer := 0\<rparr>)"

definition inNetworkChanges :: state where
  "inNetworkChanges = updateInstructions (inProcessing\<lparr>currentPhase := NETWORK_CHANGES, phaseTimer := 0\<rparr>)"

definition firstJoin :: state where
  "firstJoin = addNode (ringPosition radius (pi / 2)) 1700000000000 (inNetworkChanges\<lparr>phaseTimer := 2\<rparr>)"

definition secondJoin :: state where
  "secondJoin = addNode (ringPosition (radius * (1 + 1 / 4 * 0.4)) (pi / 2)) 1700000000000
                  (firstJoin\<lparr>phaseTimer := 18\<rparr>)"

text \<open>The references of the array are distinct, and all were handed out by the constructor.\<close>

definition freshRefs :: "state \<Rightarrow> bool" where
  "freshRefs s = (distinct (nodes s) \<and> (\<forall>r \<in> set (nodes s). r < allocated s))"

section \<open>Auxiliary facts\<close>


lemma removeAll_twice: "removeAll x (removeAll x xs) = removeAll x xs"
  by (induction xs) auto

lemma shutdown_forEach_heap:
  "heap (shutdown_forEach this ns s) n =
     (if n \<in> set ns \<and> n \<noteq> this
      then (heap s n)\<lparr>connections := removeAll (nodeId (heap s this)) (connections (heap s n))\<rparr>
      else heap s n)"
proof (induction ns arbitrary: s)
  case Nil
  show ?case by simp
next
  case (Cons node rest)
  show ?case
    by (simp add: Cons.IH removeConnection_def set_delete_def removeAll_twice)
qed

lemma shutdown_forEach_nodes: "nodes (shutdown_forEach this ns s) = nodes s"
  by (induction ns arbitrary: s) (simp_all add: removeConnection_def)

lemma shutdown_nodes: "nodes (shutdown this ns s) = nodes s"
  by (simp add: shutdown_def Let_def shutdown_forEach_nodes)

lemma shutdown_heap: "heap (shutdown this ns s) = heap (shutdown_forEach this ns s)"
  by (simp add: shutdown_def Let_def)

lemma elem_at_Some: "elem_at xs i = Some x \<Longrightarrow> 0 \<le> i \<and> nat i < length xs \<and> xs ! nat i = x"
  by (simp add: elem_at_def split: if_splits)

lemma elem_at_mem: "elem_at xs i = Some x \<Longrightarrow> x \<in> set xs"
  by (auto simp: elem_at_def split: if_splits)

lemma set_splice1_distinct:
  "distinct xs \<Longrightarrow> i < length xs \<Longrightarrow> set (splice1 i xs) = set xs - {xs ! i}"
proof -
  assume d: "distinct xs" and i: "i < length xs"
  have xs: "xs = take i xs @ xs ! i # drop (Suc i) xs"
    using i by (rule id_take_nth_drop)
  have "distinct (take i xs @ xs ! i # drop (Suc i) xs)" using d xs by simp
  then have "xs ! i \<notin> set (take i xs)" "xs ! i \<notin> set (drop (Suc i) xs)" by auto
  moreover have "set xs = set (take i xs) \<union> {xs ! i} \<union> set (drop (Suc i) xs)"
    by (subst xs) auto
  ultimately show ?thesis by (auto simp: splice1_def)
qed

lemma length_splice1: "i < length xs \<Longrightarrow> Suc (length (splice1 i xs)) = length xs"
  by (simp add: splice1_def) 

lemma distinct_splice1: "distinct xs \<Longrightarrow> distinct (splice1 i xs)"
  by (simp add: splice1_def set_take_disj_set_drop_if_distinct)

lemma find_Some_holds: "find P xs = Some x \<Longrightarrow> P x \<and> x \<in> set xs"
  by (induction xs) (auto split: if_splits)

lemma pick_in_connections:
  "pickRandomConnectedPeer u n s = Some t \<Longrightarrow>
     nodeId (heap s t) \<in> set (connections (heap s n)) \<and> t \<in> set (nodes s)"
  by (auto simp: pickRandomConnectedPeer_def Let_def split: option.splits
           dest!: find_Some_holds elem_at_mem)


lemma removeNode_Some:
  assumes "elem_at (nodes s) index = Some node"
  shows "\<exists>s'. removeNode index s = Inr s'"
  using assms by (simp add: removeNode_def Let_def)

lemma removeNode_Inr:
  assumes "removeNode index s = Inr s'"
  shows "\<exists>node. elem_at (nodes s) index = Some node"
  using assms by (simp add: removeNode_def split: option.splits)

lemma removeNode_nodes:
  assumes "removeNode index s = Inr s'"
  shows "nodes s' = splice1 (nat index) (nodes s)"
  using assms by (auto simp: removeNode_def Let_def shutdown_nodes split: option.splits)

lemma removeNode_heap:
  assumes "elem_at (nodes s) index = Some node" and "removeNode index s = Inr s'"
  shows "heap s' m =
     (if m \<in> set (nodes s') \<and> m \<noteq> node
      then (heap s m)\<lparr>connections := removeAll (nodeId (heap s node)) (connections (heap s m))\<rparr>
      else heap s m)"
  using assms
  by (auto simp: removeNode_def Let_def shutdown_nodes shutdown_heap shutdown_forEach_heap)

lemma removeNode_set:
  assumes "distinct (nodes s)" and "elem_at (nodes s) index = Some node"
    and "removeNode index s = Inr s'"
  shows "set (nodes s') = set (nodes s) - {node}"
proof -
  from assms(2) have "nat index < length (nodes s)" and "nodes s ! nat index = node"
    by (auto dest: elem_at_Some)
  with set_splice1_distinct[OF assms(1), of "nat index"] removeNode_nodes[OF assms(3)]
  show ?thesis by simp
qed

subsection \<open>connectTo\<close>

lemma connectTo_nodes: "nodes (connectTo a b s) = nodes s"
  by (simp add: connectTo_def addConnection_def Let_def)

lemma connectTo_nodeId: "nodeId (heap (connectTo a b s) n) = nodeId (heap s n)"
  by (simp add: connectTo_def addConnection_def Let_def)

lemma connectTo_ids: "ids (connectTo a b s) = ids s"
  by (simp add: ids_def connectTo_nodes connectTo_nodeId)

lemma connectTo_conn_set:
  "set (connections (heap (connectTo a b s) n)) =
     set (connections (heap s n)) \<union>
     (if nodeId (heap s b) \<in> set (connections (heap s a)) then {}
      else (if n = a then {nodeId (heap s b)} else {}) \<union> (if n = b then {nodeId (heap s a)} else {}))"
  by (auto simp: connectTo_def addConnection_def set_add_def Let_def)

lemma ids_inj:
  assumes "distinct (ids s)" and "a \<in> set (nodes s)" and "b \<in> set (nodes s)"
    and "nodeId (heap s a) = nodeId (heap s b)"
  shows "a = b"
  using assms unfolding ids_def by (auto simp: distinct_map dest: inj_onD)

lemma connectTo_symmetric:
  assumes sym: "symmetric s" and d: "distinct (ids s)"
    and a: "a \<in> set (nodes s)" and b: "b \<in> set (nodes s)"
  shows "symmetric (connectTo a b s)"
  unfolding symmetric_def connectTo_nodes connectTo_nodeId
proof (intro ballI impI)
  fix x y assume x: "x \<in> set (nodes s)" and y: "y \<in> set (nodes s)"
    and m: "nodeId (heap s y) \<in> set (connections (heap (connectTo a b s) x))"
  show "nodeId (heap s x) \<in> set (connections (heap (connectTo a b s) y))"
  proof (cases "nodeId (heap s y) \<in> set (connections (heap s x))")
    case True
    with sym x y have "nodeId (heap s x) \<in> set (connections (heap s y))"
      by (simp add: symmetric_def)
    then show ?thesis by (simp add: connectTo_conn_set)
  next
    case False
    with m have new: "nodeId (heap s b) \<notin> set (connections (heap s a))"
      and "(x = a \<and> nodeId (heap s y) = nodeId (heap s b)) \<or> (x = b \<and> nodeId (heap s y) = nodeId (heap s a))"
      by (auto simp: connectTo_conn_set split: if_splits)
    then have "(x = a \<and> y = b) \<or> (x = b \<and> y = a)"
      using ids_inj[OF d y b] ids_inj[OF d y a] by blast
    with new show ?thesis by (auto simp: connectTo_conn_set)
  qed
qed

lemma removeNode_nodeId:
  assumes "removeNode index s = Inr s'"
  shows "nodeId (heap s' m) = nodeId (heap s m)"
proof -
  from removeNode_Inr[OF assms] obtain node where "elem_at (nodes s) index = Some node" ..
  from removeNode_heap[OF this assms] show ?thesis by simp
qed

lemma map_splice1: "map f (splice1 i xs) = splice1 i (map f xs)"
  by (simp add: splice1_def take_map drop_map)

lemma removeNode_ids:
  assumes "removeNode index s = Inr s'"
  shows "ids s' = splice1 (nat index) (ids s)"
  by (simp add: ids_def removeNode_nodes[OF assms] removeNode_nodeId[OF assms] map_splice1)

lemma distinct_ids_nodes: "distinct (ids s) \<Longrightarrow> distinct (nodes s)"
  by (simp add: ids_def distinct_map)

lemma removeNode_symmetric:
  assumes sym: "symmetric s" and d: "distinct (ids s)" and r: "removeNode index s = Inr s'"
  shows "symmetric s'"
proof -
  from removeNode_Inr[OF r] obtain node where e: "elem_at (nodes s) index = Some node" ..
  have node: "node \<in> set (nodes s)" using e by (rule elem_at_mem)
  have st: "set (nodes s') = set (nodes s) - {node}"
    by (rule removeNode_set[OF distinct_ids_nodes[OF d] e r])
  show ?thesis
    unfolding symmetric_def
  proof (intro ballI impI)
    fix x y assume x: "x \<in> set (nodes s')" and y: "y \<in> set (nodes s')"
      and m: "nodeId (heap s' y) \<in> set (connections (heap s' x))"
    from x y st have xs: "x \<in> set (nodes s)" "x \<noteq> node" and ys: "y \<in> set (nodes s)" "y \<noteq> node"
      by auto
    from m x y have "nodeId (heap s y) \<in> set (connections (heap s x))"
      by (simp add: removeNode_heap[OF e r] split: if_splits)
    with sym xs ys have "nodeId (heap s x) \<in> set (connections (heap s y))"
      by (simp add: symmetric_def)
    moreover have "nodeId (heap s x) \<noteq> nodeId (heap s node)"
      using ids_inj[OF d xs(1) node] xs(2) by blast
    ultimately show "nodeId (heap s' x) \<in> set (connections (heap s' y))"
      using x y xs ys by (simp add: removeNode_heap[OF e r])
  qed
qed

lemma apply_operation_invariant:
  assumes "symmetric s" and "distinct (ids s)" and "apply_operation x s = Inr s'"
  shows "symmetric s' \<and> distinct (ids s')"
proof (cases x)
  case (Connect i j)
  with assms(3) obtain a b where "elem_at (nodes s) i = Some a" "elem_at (nodes s) j = Some b"
    and s': "s' = connectTo a b s"
    by (auto split: option.splits)
  then have "a \<in> set (nodes s)" "b \<in> set (nodes s)" by (auto dest: elem_at_mem)
  with assms(1,2) show ?thesis
    by (simp add: s' connectTo_symmetric connectTo_ids)
next
  case (RemoveNode i)
  with assms(3) have r: "removeNode i s = Inr s'" by simp
  have "distinct (splice1 (nat i) (ids s))" using assms(2) by (rule distinct_splice1)
  with removeNode_symmetric[OF assms(1,2) r] removeNode_ids[OF r] show ?thesis by simp
qed

lemma run_operations_invariant:
  "symmetric s \<Longrightarrow> distinct (ids s) \<Longrightarrow> run_operations xs s = Inr s' \<Longrightarrow>
     symmetric s' \<and> distinct (ids s')"
proof (induction xs arbitrary: s)
  case Nil
  then show ?case by simp
next
  case (Cons x xs)
  from Cons.prems(3) obtain s1 where a: "apply_operation x s = Inr s1"
    and rest: "run_operations xs s1 = Inr s'"
    by (auto split: sum.splits)
  from apply_operation_invariant[OF Cons.prems(1,2) a] Cons.IH[OF _ _ rest]
  show ?case by blast
qed


lemma connectTo_idem: "connectTo a b (connectTo a b s) = connectTo a b s"
proof (cases "nodeId (heap s b) \<in> set (connections (heap s a))")
  case True
  then show ?thesis by (simp add: connectTo_def)
next
  case False
  then have "nodeId (heap (connectTo a b s) b) \<in> set (connections (heap (connectTo a b s) a))"
    by (simp add: connectTo_nodeId connectTo_conn_set)
  then show ?thesis by (subst connectTo_def) simp
qed

lemma discoverPeers_timeouts:
  assumes "discoverPeers e s = Inr s'"
  shows "timeouts s' = timeouts s \<or>
         (\<exists>a b. a \<noteq> b \<and> a \<in> set (nodes s) \<and> b \<in> set (nodes s) \<and>
                nodeId (heap s b) \<notin> set (connections (heap s a)) \<and>
                timeouts s' = timeouts s @ [(500 / speed s, ConnectLater a b)])"
  using assms
  by (auto simp: discoverPeers_def Let_def setTimeout_def sendPacket_def
           split: option.splits if_splits dest: elem_at_mem)

lemma digits_example: "digits 1700000000000 = ''1700000000000''"
  by (simp add: digits.simps digit_def)

lemmas build_defs = threeNodes_def twoNodes_def addNode_def pushNode_def newBitcoinNode_def
  initialState_def Let_def digits_example

section \<open>Auxiliary facts about the scheduler\<close>


lemma notified_append: "notified (cs @ ds) = notified cs @ notified ds"
  by (induction cs rule: notified.induct) simp_all

lemma sameSchedule_refl: "sameSchedule s s"
  by (simp add: sameSchedule_def)

lemma sameSchedule_trans: "sameSchedule s t \<Longrightarrow> sameSchedule t u \<Longrightarrow> sameSchedule s u"
  by (simp add: sameSchedule_def)

lemma sendPacket_same: "sameSchedule s (sendPacket a b ty s)"
  by (simp add: sameSchedule_def sendPacket_def notified_append)

lemma setTimeout_same: "sameSchedule s (setTimeout c d s)"
  by (simp add: sameSchedule_def setTimeout_def)

lemma setProcessing_same: "sameSchedule s (setProcessing a b s)"
  by (simp add: sameSchedule_def setProcessing_def notified_append)

lemma showSyncProgress_same: "sameSchedule s (showSyncProgress a p s)"
  by (simp add: sameSchedule_def showSyncProgress_def notified_append)

lemma connectTo_same: "sameSchedule s (connectTo a b s)"
  by (simp add: sameSchedule_def connectTo_def addConnection_def Let_def notified_append)

lemma shutdown_forEach_same: "sameSchedule s (shutdown_forEach this ns s)"
proof (induction ns arbitrary: s)
  case Nil
  show ?case by (simp add: sameSchedule_refl)
next
  case (Cons n ns)
  have "sameSchedule s (if n \<noteq> this then removeConnection (nodeId (heap s this)) n s else s)"
    by (simp add: sameSchedule_def removeConnection_def)
  from sameSchedule_trans[OF this Cons.IH] show ?case by simp
qed

lemma shutdown_same: "sameSchedule s (shutdown this ns s)"
  using shutdown_forEach_same[of s this ns]
  by (simp add: sameSchedule_def shutdown_def Let_def notified_append)

lemma removeNode_same: "removeNode i s = Inr s' \<Longrightarrow> sameSchedule s s'"
  using shutdown_same[of "s\<lparr>nodes := splice1 (nat i) (nodes s)\<rparr>"]
  by (auto simp: removeNode_def Let_def sameSchedule_def split: option.splits)

lemma pushNode_same: "sameSchedule s (pushNode p n s)"
  by (simp add: sameSchedule_def pushNode_def newBitcoinNode_def Let_def)

lemma addNode_same: "sameSchedule s (addNode p n s)"
  by (simp add: addNode_def pushNode_same)

lemma discoverPeers_same: "discoverPeers e s = Inr s' \<Longrightarrow> sameSchedule s s'"
  by (auto simp: discoverPeers_def Let_def sameSchedule_refl
        intro: sameSchedule_trans[OF sendPacket_same setTimeout_same]
        split: option.splits if_splits)

lemma syncing_forEach_same: "sameSchedule s (syncing_forEach e ns k s)"
proof (induction ns arbitrary: k s)
  case Nil
  show ?case by (simp add: sameSchedule_refl)
next
  case (Cons n ns)
  let ?s1 = "showSyncProgress n (js_rem (phaseTimer s) 2000 / 2000) s"
  have a: "sameSchedule s ?s1" by (rule showSyncProgress_same)
  have b: "\<And>t. sameSchedule s (sendPacket n t block ?s1)"
    by (rule sameSchedule_trans[OF a sendPacket_same])
  show ?case
    by (auto simp: Let_def split: option.splits
          intro: sameSchedule_trans[OF a Cons.IH] sameSchedule_trans[OF b Cons.IH])
qed

lemma processTransaction_same: "processTransaction e s = Inr s' \<Longrightarrow> sameSchedule s s'"
  by (auto simp: processTransaction_def sameSchedule_refl
        intro: sameSchedule_trans[OF sendPacket_same sameSchedule_trans[OF setProcessing_same setTimeout_same]]
        split: option.splits if_splits)

lemma changeMembership_same: "changeMembership e s = Inr s' \<Longrightarrow> sameSchedule s s'"
  by (auto simp: changeMembership_def sameSchedule_refl addNode_same
        dest: removeNode_same split: if_splits)



lemma random_index:
  assumes "0 \<le> u" and "u < 1" and "xs \<noteq> []"
  shows "\<exists>x. elem_at xs \<lfloor>u * real (length xs)\<rfloor> = Some x"
proof -
  have n: "0 < real (length xs)" using assms(3) by simp
  have "0 \<le> u * real (length xs)" using assms(1) by simp
  then have lo: "0 \<le> \<lfloor>u * real (length xs)\<rfloor>" by simp
  have "u * real (length xs) < real (length xs)" using assms(2) n by simp
  then have "\<lfloor>u * real (length xs)\<rfloor> < int (length xs)"
    by (simp add: floor_less_iff)
  with lo have "nat \<lfloor>u * real (length xs)\<rfloor> < length xs" by linarith
  with lo show ?thesis by (simp add: elem_at_def)
qed

lemma unitIntervalD: "unitInterval f \<Longrightarrow> 0 \<le> f k \<and> f k < 1"
  by (simp add: unitInterval_def)

lemma discoverPeers_completes:
  assumes "unitInterval (Math_random e)" and "nodes s \<noteq> []"
  shows "\<exists>s'. discoverPeers e s = Inr s'"
proof -
  from unitIntervalD[OF assms(1), of 0] assms(2)
  obtain a where a: "elem_at (nodes s) \<lfloor>Math_random e 0 * real (length (nodes s))\<rfloor> = Some a"
    using random_index by blast
  from unitIntervalD[OF assms(1), of 1] assms(2)
  obtain b where b: "elem_at (nodes s) \<lfloor>Math_random e 1 * real (length (nodes s))\<rfloor> = Some b"
    using random_index by blast
  show ?thesis using a b by (simp add: discoverPeers_def)
qed

lemma processTransaction_completes:
  assumes "unitInterval (Math_random e)" and "nodes s \<noteq> []"
  shows "\<exists>s'. processTransaction e s = Inr s'"
proof -
  from unitIntervalD[OF assms(1), of 0] assms(2)
  obtain a where a: "elem_at (nodes s) \<lfloor>Math_random e 0 * real (length (nodes s))\<rfloor> = Some a"
    using random_index by blast
  show ?thesis using a by (simp add: processTransaction_def)
qed

lemma changeMembership_completes:
  assumes "unitInterval (Math_random e)" and "nodes s \<noteq> []"
  shows "\<exists>s'. changeMembership e s = Inr s'"
proof -
  from unitIntervalD[OF assms(1), of 1] assms(2)
  obtain a where a: "elem_at (nodes s) \<lfloor>Math_random e 1 * real (length (nodes s))\<rfloor> = Some a"
    using random_index by blast
  show ?thesis using a by (simp add: changeMembership_def removeNode_def Let_def)
qed

lemma advance_effect:
  "(thr < phaseTimer s \<longrightarrow>
      currentPhase (advance thr nx s) = nx \<and> phaseTimer (advance thr nx s) = 0 \<and>
      notified (calls (advance thr nx s)) = notified (calls s) @ [nx]) \<and>
   (\<not> thr < phaseTimer s \<longrightarrow> advance thr nx s = s)"
  by (simp add: advance_def updateInstructions_def notified_append)

lemma advance_twice: "0 \<le> thr \<Longrightarrow> advance thr nx (advance thr nx s) = advance thr nx s"
  by (simp add: advance_def updateInstructions_def)

lemma leave_effect:
  "(7000 < phaseTimer s \<longrightarrow>
      currentPhase (leaveNetworkChanges s) = DISCOVERY \<and> phaseTimer (leaveNetworkChanges s) = 0 \<and>
      notified (calls (leaveNetworkChanges s)) = notified (calls s) @ [DISCOVERY]) \<and>
   (\<not> 7000 < phaseTimer s \<longrightarrow> leaveNetworkChanges s = s)"
  by (simp add: leaveNetworkChanges_def updateInstructions_def notified_append pushNode_def
        newBitcoinNode_def Let_def)

lemma leave_twice: "leaveNetworkChanges (leaveNetworkChanges s) = leaveNetworkChanges s"
  by (simp add: leaveNetworkChanges_def updateInstructions_def Let_def)

text \<open>A handler's own work followed by the two threshold tests.\<close>

lemma after_handler:
  assumes q: "sameSchedule s0 s1" and thr: "0 \<le> thr"
  shows "if thr < phaseTimer s0
         then currentPhase (advance thr nx (advance thr nx s1)) = nx \<and>
              phaseTimer (advance thr nx (advance thr nx s1)) = 0 \<and>
              notified (calls (advance thr nx (advance thr nx s1))) = notified (calls s0) @ [nx]
         else currentPhase (advance thr nx (advance thr nx s1)) = currentPhase s0 \<and>
              phaseTimer (advance thr nx (advance thr nx s1)) = phaseTimer s0 \<and>
              notified (calls (advance thr nx (advance thr nx s1))) = notified (calls s0)"
  using q advance_effect[of thr s1 nx]
  by (auto simp: advance_twice[OF thr] sameSchedule_def)

lemma after_changes:
  assumes q: "sameSchedule s0 s1"
  shows "if 7000 < phaseTimer s0
         then currentPhase (leaveNetworkChanges (leaveNetworkChanges s1)) = DISCOVERY \<and>
              phaseTimer (leaveNetworkChanges (leaveNetworkChanges s1)) = 0 \<and>
              notified (calls (leaveNetworkChanges (leaveNetworkChanges s1))) = notified (calls s0) @ [DISCOVERY]
         else currentPhase (leaveNetworkChanges (leaveNetworkChanges s1)) = currentPhase s0 \<and>
              phaseTimer (leaveNetworkChanges (leaveNetworkChanges s1)) = phaseTimer s0 \<and>
              notified (calls (leaveNetworkChanges (leaveNetworkChanges s1))) = notified (calls s0)"
  using q leave_effect[of s1]
  by (auto simp: leave_twice sameSchedule_def)

text \<open>The shape of a completed running frame, phase by phase.\<close>

lemma running_frame_shape:
  assumes r: "onBeforeRender e s = Inr s'" and run: "isRunning s"
  shows "\<exists>s1. sameSchedule (s\<lparr>phaseTimer := phaseTimer s + getDeltaTime e * speed s\<rparr>) s1 \<and>
           s' = (case currentPhase s of
                   DISCOVERY \<Rightarrow> advance 5000 SYNCING (advance 5000 SYNCING s1)
                 | SYNCING \<Rightarrow> advance 8000 PROCESSING (advance 8000 PROCESSING s1)
                 | PROCESSING \<Rightarrow> advance 6000 NETWORK_CHANGES (advance 6000 NETWORK_CHANGES s1)
                 | NETWORK_CHANGES \<Rightarrow> leaveNetworkChanges (leaveNetworkChanges s1))"
proof (cases "currentPhase s")
  case DISCOVERY
  with r run show ?thesis
    by (auto simp: onBeforeRender_def Let_def handleDiscoveryPhase_def
          split: sum.splits if_splits dest: discoverPeers_same intro: sameSchedule_refl)
next
  case SYNCING
  with r run show ?thesis
    by (auto simp: onBeforeRender_def Let_def handleSyncingPhase_def
          split: sum.splits if_splits intro: syncing_forEach_same)
next
  case PROCESSING
  with r run show ?thesis
    by (auto simp: onBeforeRender_def Let_def handleProcessingPhase_def
          split: sum.splits if_splits dest: processTransaction_same intro: sameSchedule_refl)
next
  case NETWORK_CHANGES
  with r run show ?thesis
    by (auto simp: onBeforeRender_def Let_def handleNetworkChanges_def
          split: sum.splits if_splits dest: changeMembership_same)
qed

lemma running_frame_phase:
  assumes r: "onBeforeRender e s = Inr s'" and run: "isRunning s"
  shows "if threshold (currentPhase s) < phaseTimer s + getDeltaTime e * speed s
         then currentPhase s' = nextPhase (currentPhase s) \<and> phaseTimer s' = 0 \<and>
              notified (calls s') = notified (calls s) @ [nextPhase (currentPhase s)]
         else currentPhase s' = currentPhase s \<and>
              phaseTimer s' = phaseTimer s + getDeltaTime e * speed s \<and>
              notified (calls s') = notified (calls s)"
proof -
  let ?s0 = "s\<lparr>phaseTimer := phaseTimer s + getDeltaTime e * speed s\<rparr>"
  from running_frame_shape[OF r run] obtain s1 where q: "sameSchedule ?s0 s1"
    and s': "s' = (case currentPhase s of
                   DISCOVERY \<Rightarrow> advance 5000 SYNCING (advance 5000 SYNCING s1)
                 | SYNCING \<Rightarrow> advance 8000 PROCESSING (advance 8000 PROCESSING s1)
                 | PROCESSING \<Rightarrow> advance 6000 NETWORK_CHANGES (advance 6000 NETWORK_CHANGES s1)
                 | NETWORK_CHANGES \<Rightarrow> leaveNetworkChanges (leaveNetworkChanges s1))"
    by blast
  show ?thesis
  proof (cases "currentPhase s")
    case DISCOVERY
    with s' after_handler[OF q, of 5000 SYNCING] show ?thesis by simp
  next
    case SYNCING
    with s' after_handler[OF q, of 8000 PROCESSING] show ?thesis by simp
  next
    case PROCESSING
    with s' after_handler[OF q, of 6000 NETWORK_CHANGES] show ?thesis by simp
  next
    case NETWORK_CHANGES
    with s' after_changes[OF q] show ?thesis by simp
  qed
qed

lemma onBeforeRender_completes:
  assumes "unitInterval (Math_random e)" and "nodes s \<noteq> []"
  shows "\<exists>s'. onBeforeRender e s = Inr s'"
proof (cases "isRunning s")
  case False
  then show ?thesis by (simp add: onBeforeRender_def)
next
  case True
  let ?s0 = "s\<lparr>phaseTimer := phaseTimer s + getDeltaTime e * speed s\<rparr>"
  have n: "nodes ?s0 \<noteq> []" using assms(2) by simp
  from discoverPeers_completes[OF assms(1) n] obtain d where d: "discoverPeers e ?s0 = Inr d" ..
  from processTransaction_completes[OF assms(1) n] obtain p where p: "processTransaction e ?s0 = Inr p" ..
  from changeMembership_completes[OF assms(1) n] obtain c where c: "changeMembership e ?s0 = Inr c" ..
  show ?thesis
    by (cases "currentPhase s")
       (simp_all add: onBeforeRender_def Let_def True handleDiscoveryPhase_def handleSyncingPhase_def
          handleProcessingPhase_def handleNetworkChanges_def d p c)
qed

lemma other_events_schedule:
  assumes "handle ev s = Inr s'" and "\<forall>e. ev \<noteq> Frame e"
  shows "currentPhase s' = currentPhase s \<and> phaseTimer s' = phaseTimer s \<and>
         notified (calls s') = notified (calls s)"
proof (cases ev)
  case (Frame e)
  with assms(2) show ?thesis by simp
next
  case (TimeoutDue i)
  show ?thesis
  proof (cases "i < length (timeouts s)")
    case False
    with TimeoutDue assms(1) show ?thesis by (auto simp: fireTimeout_def)
  next
    case True
    let ?s0 = "s\<lparr>timeouts := splice1 i (timeouts s)\<rparr>"
    have "sameSchedule ?s0 (runCallback (snd (timeouts s ! i)) ?s0)"
      by (cases "snd (timeouts s ! i)") (simp_all add: connectTo_same setProcessing_same)
    with True TimeoutDue assms(1) show ?thesis
      by (auto simp: fireTimeout_def sameSchedule_def)
  qed
next
  case PlayPause
  with assms(1) show ?thesis by auto
next
  case Theme
  with assms(1) show ?thesis by auto
qed

lemma ringPosition_pi: "ringPosition radius pi = \<lparr>vx = - 5, vy = 0, vz = 0\<rparr>"
  by (simp add: ringPosition_def radius_def)

lemma js_rem_7100: "js_rem 7100 2000 = 1100"
  by (simp add: js_rem_def)

section \<open>Auxiliary facts about frames and reachable states\<close>


text \<open>The parts of a completed frame.\<close>

lemma frame_cases:
  assumes "onBeforeRender e s = Inr s'"
  obtains
    (paused) "\<not> isRunning s" and "s' = s"
  | (discovery) s1 where "isRunning s" and "currentPhase s = DISCOVERY"
      and "s1 = s\<lparr>phaseTimer := phaseTimer s + getDeltaTime e * speed s\<rparr> \<or>
           discoverPeers e (s\<lparr>phaseTimer := phaseTimer s + getDeltaTime e * speed s\<rparr>) = Inr s1"
      and "s' = advance 5000 SYNCING (advance 5000 SYNCING s1)"
  | (syncing) "isRunning s" and "currentPhase s = SYNCING"
      and "s' = advance 8000 PROCESSING (advance 8000 PROCESSING
                 (syncing_forEach e (nodes s) 0 (s\<lparr>phaseTimer := phaseTimer s + getDeltaTime e * speed s\<rparr>)))"
  | (processing) s1 where "isRunning s" and "currentPhase s = PROCESSING"
      and "s1 = s\<lparr>phaseTimer := phaseTimer s + getDeltaTime e * speed s\<rparr> \<or>
           processTransaction e (s\<lparr>phaseTimer := phaseTimer s + getDeltaTime e * speed s\<rparr>) = Inr s1"
      and "s' = advance 6000 NETWORK_CHANGES (advance 6000 NETWORK_CHANGES s1)"
  | (changes) s1 where "isRunning s" and "currentPhase s = NETWORK_CHANGES"
      and "changeMembership e (s\<lparr>phaseTimer := phaseTimer s + getDeltaTime e * speed s\<rparr>) = Inr s1"
      and "s' = leaveNetworkChanges (leaveNetworkChanges s1)"
proof (cases "isRunning s")
  case False
  with assms have "s' = s" by (simp add: onBeforeRender_def)
  with False show ?thesis by (rule paused)
next
  case True
  let ?s0 = "s\<lparr>phaseTimer := phaseTimer s + getDeltaTime e * speed s\<rparr>"
  show ?thesis
  proof (cases "currentPhase s")
    case DISCOVERY
    with assms True have "\<exists>s1. (s1 = ?s0 \<or> discoverPeers e ?s0 = Inr s1) \<and>
        s' = advance 5000 SYNCING (advance 5000 SYNCING s1)"
      by (auto simp: onBeforeRender_def Let_def handleDiscoveryPhase_def split: sum.splits if_splits)
    then obtain s1 where "s1 = ?s0 \<or> discoverPeers e ?s0 = Inr s1"
      and "s' = advance 5000 SYNCING (advance 5000 SYNCING s1)" by blast
    with True DISCOVERY show ?thesis by (rule discovery)
  next
    case SYNCING
    with assms True have "s' = advance 8000 PROCESSING (advance 8000 PROCESSING
                 (syncing_forEach e (nodes s) 0 ?s0))"
      by (auto simp: onBeforeRender_def Let_def handleSyncingPhase_def split: sum.splits if_splits)
    with True SYNCING show ?thesis by (rule syncing)
  next
    case PROCESSING
    with assms True have "\<exists>s1. (s1 = ?s0 \<or> processTransaction e ?s0 = Inr s1) \<and>
        s' = advance 6000 NETWORK_CHANGES (advance 6000 NETWORK_CHANGES s1)"
      by (auto simp: onBeforeRender_def Let_def handleProcessingPhase_def split: sum.splits if_splits)
    then obtain s1 where "s1 = ?s0 \<or> processTransaction e ?s0 = Inr s1"
      and "s' = advance 6000 NETWORK_CHANGES (advance 6000 NETWORK_CHANGES s1)" by blast
    with True PROCESSING show ?thesis by (rule processing)
  next
    case NETWORK_CHANGES
    with assms True have "\<exists>s1. changeMembership e ?s0 = Inr s1 \<and>
        s' = leaveNetworkChanges (leaveNetworkChanges s1)"
      by (auto simp: onBeforeRender_def Let_def handleNetworkChanges_def split: sum.splits if_splits)
    then obtain s1 where "changeMembership e ?s0 = Inr s1"
      and "s' = leaveNetworkChanges (leaveNetworkChanges s1)" by blast
    with True NETWORK_CHANGES show ?thesis by (rule changes)
  qed
qed

text \<open>Steps that leave the array and the counters alone.\<close>

lemma advance_nodes:
  "nodes (advance thr nx s) = nodes s \<and> nodeCount (advance thr nx s) = nodeCount s"
  by (simp add: advance_def updateInstructions_def)

lemma discoverPeers_nodes:
  "discoverPeers e s = Inr s' \<Longrightarrow> nodes s' = nodes s \<and> nodeCount s' = nodeCount s"
  by (auto simp: discoverPeers_def Let_def setTimeout_def sendPacket_def
        split: option.splits if_splits)

lemma syncing_forEach_nodes:
  "nodes (syncing_forEach e ns k s) = nodes s \<and> nodeCount (syncing_forEach e ns k s) = nodeCount s"
proof (induction ns arbitrary: k s)
  case Nil
  show ?case by simp
next
  case (Cons n ns)
  show ?case
    by (simp add: Let_def Cons.IH showSyncProgress_def sendPacket_def split: option.splits)
qed

lemma processTransaction_nodes:
  "processTransaction e s = Inr s' \<Longrightarrow> nodes s' = nodes s \<and> nodeCount s' = nodeCount s"
  by (auto simp: processTransaction_def setTimeout_def sendPacket_def setProcessing_def
        split: option.splits if_splits)

lemma fireTimeout_nodes:
  "nodes (fireTimeout i s) = nodes s \<and> nodeCount (fireTimeout i s) = nodeCount s"
proof (cases "i < length (timeouts s)")
  case False
  then show ?thesis by (simp add: fireTimeout_def)
next
  case True
  then show ?thesis
    by (cases "snd (timeouts s ! i)")
       (simp_all add: fireTimeout_def connectTo_def addConnection_def setProcessing_def Let_def)
qed

lemma pushNode_nodes:
  "length (nodes (pushNode p n s)) = Suc (length (nodes s)) \<and>
   nodeCount (pushNode p n s) = Suc (length (nodes s))"
  by (simp add: pushNode_def newBitcoinNode_def Let_def)

lemma removeNode_length:
  assumes "removeNode i s = Inr s'"
  shows "Suc (length (nodes s')) = length (nodes s) \<and> nodeCount s' = length (nodes s')"
proof -
  from removeNode_Inr[OF assms] obtain node where "elem_at (nodes s) i = Some node" ..
  then have "nat i < length (nodes s)" by (auto dest: elem_at_Some)
  from length_splice1[OF this] removeNode_nodes[OF assms] assms show ?thesis
    by (auto simp: removeNode_def Let_def split: option.splits)
qed

lemma changeMembership_length:
  assumes "changeMembership e s = Inr s'"
  shows "s' = s \<or>
         (2 < length (nodes s) \<and> Suc (length (nodes s')) = length (nodes s) \<and>
            nodeCount s' = length (nodes s')) \<or>
         (2 \<le> length (nodes s) \<and> real (length (nodes s)) < maxNodes s \<and>
            length (nodes s') = Suc (length (nodes s)) \<and> nodeCount s' = length (nodes s'))"
  using assms
  by (auto simp: changeMembership_def minNodes_def addNode_def pushNode_nodes
        dest: removeNode_length split: if_splits)

lemma leave_length:
  "length (nodes (leaveNetworkChanges s)) =
     (if 7000 < phaseTimer s \<and> length (nodes s) < 2 then Suc (length (nodes s))
      else length (nodes s)) \<and>
   nodeCount (leaveNetworkChanges s) =
     (if 7000 < phaseTimer s \<and> length (nodes s) < 2 then Suc (length (nodes s))
      else nodeCount s)"
  by (simp add: leaveNetworkChanges_def updateInstructions_def pushNode_nodes Let_def)

text \<open>How one completed frame moves the length of the array.\<close>

lemma frame_length:
  assumes "onBeforeRender e s = Inr s'"
  shows "(length (nodes s') = length (nodes s) \<and> nodeCount s' = nodeCount s) \<or>
         (2 < length (nodes s) \<and> Suc (length (nodes s')) = length (nodes s) \<and>
            nodeCount s' = length (nodes s')) \<or>
         (2 \<le> length (nodes s) \<and> real (length (nodes s)) < maxNodes s \<and>
            length (nodes s') = Suc (length (nodes s)) \<and> nodeCount s' = length (nodes s')) \<or>
         (length (nodes s) < 2 \<and> length (nodes s') = Suc (length (nodes s)) \<and>
            nodeCount s' = length (nodes s'))"
  using assms
proof (cases rule: frame_cases)
  case paused
  then show ?thesis by simp
next
  case (discovery s1)
  then show ?thesis by (auto simp: advance_nodes dest: discoverPeers_nodes)
next
  case syncing
  then show ?thesis by (simp add: advance_nodes syncing_forEach_nodes)
next
  case (processing s1)
  then show ?thesis by (auto simp: advance_nodes dest: processTransaction_nodes)
next
  case (changes s1)
  let ?s0 = "s\<lparr>phaseTimer := phaseTimer s + getDeltaTime e * speed s\<rparr>"
  have m: "maxNodes ?s0 = maxNodes s" by (simp add: maxNodes_def)
  have l2: "leaveNetworkChanges (leaveNetworkChanges s1) = leaveNetworkChanges s1"
    by (simp add: leaveNetworkChanges_def updateInstructions_def Let_def)
  have s': "s' = leaveNetworkChanges s1" using changes(4) l2 by simp
  have lv: "(length (nodes s') = length (nodes s1) \<and> nodeCount s' = nodeCount s1) \<or>
            (length (nodes s1) < 2 \<and> length (nodes s') = Suc (length (nodes s1)) \<and>
               nodeCount s' = length (nodes s'))"
    unfolding s' using leave_length[of s1] by presburger
  from changeMembership_length[OF changes(3)]
  consider (same) "s1 = ?s0"
    | (less) "2 < length (nodes s)" "Suc (length (nodes s1)) = length (nodes s)"
        "nodeCount s1 = length (nodes s1)"
    | (more) "2 \<le> length (nodes s)" "real (length (nodes s)) < maxNodes s"
        "length (nodes s1) = Suc (length (nodes s))" "nodeCount s1 = length (nodes s1)"
    using m by auto
  then show ?thesis
  proof cases
    case same
    with lv show ?thesis by auto
  next
    case less
    with lv show ?thesis by auto
  next
    case more
    with lv show ?thesis by auto
  qed
qed

lemma handle_length:
  assumes "handle ev s = Inr s'"
  shows "(length (nodes s') = length (nodes s) \<and> nodeCount s' = nodeCount s) \<or>
         (2 < length (nodes s) \<and> Suc (length (nodes s')) = length (nodes s) \<and>
            nodeCount s' = length (nodes s')) \<or>
         (2 \<le> length (nodes s) \<and> real (length (nodes s)) < maxNodes s \<and>
            length (nodes s') = Suc (length (nodes s)) \<and> nodeCount s' = length (nodes s')) \<or>
         (length (nodes s) < 2 \<and> length (nodes s') = Suc (length (nodes s)) \<and>
            nodeCount s' = length (nodes s'))"
proof (cases ev)
  case (Frame e)
  with assms frame_length[of e s s'] show ?thesis by simp
next
  case (TimeoutDue i)
  with assms show ?thesis by (auto simp: fireTimeout_nodes)
next
  case PlayPause
  with assms show ?thesis by auto
next
  case Theme
  with assms show ?thesis by auto
qed

lemma run_floor:
  "2 \<le> length (nodes s) \<Longrightarrow> run evs s = Inr s' \<Longrightarrow> 2 \<le> length (nodes s')"
proof (induction evs arbitrary: s)
  case Nil
  then show ?case by simp
next
  case (Cons ev evs)
  from Cons.prems(2) obtain s1 where h: "handle ev s = Inr s1" and r: "run evs s1 = Inr s'"
    by (auto split: sum.splits)
  from handle_length[OF h] Cons.prems(1) have "2 \<le> length (nodes s1)" by linarith
  from Cons.IH[OF this r] show ?case .
qed



lemma advance_constants:
  "speed (advance thr nx s) = speed s \<and> currentStep (advance thr nx s) = currentStep s \<and>
   initialNodeCount (advance thr nx s) = initialNodeCount s"
  by (simp add: advance_def updateInstructions_def)

lemma leave_constants:
  "speed (leaveNetworkChanges s) = speed s \<and>
   currentStep (leaveNetworkChanges s) = currentStep s \<and>
   initialNodeCount (leaveNetworkChanges s) = initialNodeCount s"
  by (simp add: leaveNetworkChanges_def updateInstructions_def pushNode_def newBitcoinNode_def Let_def)

lemma sameSchedule_constants:
  "sameSchedule s s' \<Longrightarrow>
     speed s' = speed s \<and> currentStep s' = currentStep s \<and> initialNodeCount s' = initialNodeCount s"
  by (simp add: sameSchedule_def)

lemma frame_constants:
  assumes "onBeforeRender e s = Inr s'"
  shows "speed s' = speed s \<and> currentStep s' = currentStep s \<and>
         initialNodeCount s' = initialNodeCount s"
  using assms
proof (cases rule: frame_cases)
  case paused
  then show ?thesis by simp
next
  case (discovery s1)
  from discovery(3) have "sameSchedule (s\<lparr>phaseTimer := phaseTimer s + getDeltaTime e * speed s\<rparr>) s1"
    by (auto intro: sameSchedule_refl dest: discoverPeers_same)
  from sameSchedule_constants[OF this] discovery(4) show ?thesis
    by (simp add: advance_constants)
next
  case syncing
  from sameSchedule_constants[OF syncing_forEach_same] syncing(3) show ?thesis
    by (simp add: advance_constants)
next
  case (processing s1)
  from processing(3) have "sameSchedule (s\<lparr>phaseTimer := phaseTimer s + getDeltaTime e * speed s\<rparr>) s1"
    by (auto intro: sameSchedule_refl dest: processTransaction_same)
  from sameSchedule_constants[OF this] processing(4) show ?thesis
    by (simp add: advance_constants)
next
  case (changes s1)
  from sameSchedule_constants[OF changeMembership_same[OF changes(3)]] changes(4) show ?thesis
    by (simp add: leave_constants)
qed

lemma handle_constants:
  assumes "handle ev s = Inr s'"
  shows "speed s' = speed s \<and> currentStep s' = currentStep s \<and>
         initialNodeCount s' = initialNodeCount s"
proof (cases ev)
  case (Frame e)
  with assms frame_constants[of e s s'] show ?thesis by simp
next
  case (TimeoutDue i)
  show ?thesis
  proof (cases "i < length (timeouts s)")
    case False
    with TimeoutDue assms show ?thesis by (auto simp: fireTimeout_def)
  next
    case True
    let ?s0 = "s\<lparr>timeouts := splice1 i (timeouts s)\<rparr>"
    have "sameSchedule ?s0 (runCallback (snd (timeouts s ! i)) ?s0)"
      by (cases "snd (timeouts s ! i)") (simp_all add: connectTo_same setProcessing_same)
    from sameSchedule_constants[OF this] True TimeoutDue assms show ?thesis
      by (auto simp: fireTimeout_def)
  qed
next
  case PlayPause
  with assms show ?thesis by auto
next
  case Theme
  with assms show ?thesis by auto
qed

lemma reachable_invariant:
  assumes "reachable s"
  shows "1 \<le> length (nodes s) \<and> length (nodes s) \<le> 20 \<and> nodeCount s = length (nodes s) \<and>
         initialNodeCount s = 1 \<and> currentStep s = 0 \<and> speed s = 1"
  using assms
proof (induction rule: reachable.induct)
  case start
  show ?case by (simp add: initialState_def)
next
  case (after s ev s')
  from handle_constants[OF after.hyps(3)] after.IH
  have c: "initialNodeCount s' = 1" "currentStep s' = 0" "speed s' = 1" by simp_all
  have m: "maxNodes s = 20" using after.IH by (simp add: maxNodes_def)
  from handle_length[OF after.hyps(3)] after.IH m
  have "1 \<le> length (nodes s') \<and> length (nodes s') \<le> 20 \<and> nodeCount s' = length (nodes s')"
    by (elim disjE) simp_all
  with c show ?case by simp
qed

lemma js_rem_zero: "js_rem 0 b = 0"
  by (simp add: js_rem_def)

lemma first_frame_result:
  "onBeforeRender (frame16\<lparr>getDeltaTime := 200\<rparr>) initialState = Inr afterFirstFrame"
  by (simp add: onBeforeRender_def handleNetworkChanges_def changeMembership_def
        leaveNetworkChanges_def initialState_def Let_def js_rem_7100 pushNode_def
        newBitcoinNode_def updateInstructions_def afterFirstFrame_def twoNodes_def)

lemma unit_half: "unitInterval (\<lambda>k. 1 / 2)"
  by (simp add: unitInterval_def)

lemma reachable_afterFirstFrame: "reachable afterFirstFrame"
proof -
  have p: "possible (Frame (frame16\<lparr>getDeltaTime := 200\<rparr>)) initialState"
    by (simp add: frame16_def unit_half)
  have h: "handle (Frame (frame16\<lparr>getDeltaTime := 200\<rparr>)) initialState = Inr afterFirstFrame"
    by (simp add: first_frame_result)
  from reachable.after[OF reachable.start p h] show ?thesis .
qed

lemma afterFirstFrame_nodes: "nodes afterFirstFrame = [0, 1]"
  by (simp add: afterFirstFrame_def updateInstructions_def build_defs)

section \<open>Auxiliary facts about placement\<close>


lemma Distance_ring: "Distance (ringPosition r a) origin = \<bar>r\<bar>"
proof -
  have "(r * cos a)\<^sup>2 + (r * sin a)\<^sup>2 = r\<^sup>2 * ((cos a)\<^sup>2 + (sin a)\<^sup>2)"
    by (simp only: power_mult_distrib distrib_left)
  also have "\<dots> = r\<^sup>2" by simp
  finally show ?thesis
    by (simp add: Distance_def ringPosition_def origin_def)
qed

lemma placementLoop_props:
  assumes "n < 10"
  shows "n \<le> attempts (placementLoop e s k n) \<and> attempts (placementLoop e s k n) \<le> 10 \<and>
         k < drawn (placementLoop e s k n) \<and>
         drawn (placementLoop e s k n) + n \<le> k + 10 \<and>
         drawn (placementLoop e s k n) + n = Suc k + attempts (placementLoop e s k n)
           - (if attempts (placementLoop e s k n) = 10 then 1 else 0) \<and>
         angle (placementLoop e s k n) = Math_random e (drawn (placementLoop e s k n) - 1) * pi * 2 \<and>
         candidate (placementLoop e s k n) = ringPosition radius (angle (placementLoop e s k n)) \<and>
         (attempts (placementLoop e s k n) < 10 \<longleftrightarrow> \<not> isTooClose s (candidate (placementLoop e s k n)))"
  using assms
proof (induction e s k n rule: placementLoop.induct)
  case (1 e s k n)
  show ?case
  proof (cases "isTooClose s (ringPosition radius (Math_random e k * pi * 2))")
    case False
    with "1.prems" show ?thesis
      by (subst (1 2 3 4 5 6 7 8 9 10 11 12 13) placementLoop.simps) simp
  next
    case close: True
    show ?thesis
    proof (cases "Suc n < 10")
      case True
      from "1.IH"[OF _ True True] close have ih: "Suc n \<le> attempts (placementLoop e s (Suc k) (Suc n)) \<and> attempts (placementLoop e s (Suc k) (Suc n)) \<le> 10 \<and>
         Suc k < drawn (placementLoop e s (Suc k) (Suc n)) \<and>
         drawn (placementLoop e s (Suc k) (Suc n)) + Suc n \<le> Suc k + 10 \<and>
         drawn (placementLoop e s (Suc k) (Suc n)) + Suc n = Suc (Suc k) + attempts (placementLoop e s (Suc k) (Suc n))
           - (if attempts (placementLoop e s (Suc k) (Suc n)) = 10 then 1 else 0) \<and>
         angle (placementLoop e s (Suc k) (Suc n)) = Math_random e (drawn (placementLoop e s (Suc k) (Suc n)) - 1) * pi * 2 \<and>
         candidate (placementLoop e s (Suc k) (Suc n)) = ringPosition radius (angle (placementLoop e s (Suc k) (Suc n))) \<and>
         (attempts (placementLoop e s (Suc k) (Suc n)) < 10 \<longleftrightarrow> \<not> isTooClose s (candidate (placementLoop e s (Suc k) (Suc n))))"
        by simp
      have eq: "placementLoop e s k n = placementLoop e s (Suc k) (Suc n)"
        using close True by (subst placementLoop.simps) simp
      show ?thesis unfolding eq using ih by auto
    next
      case False
      with "1.prems" have n: "n = 9" by simp
      have eq: "placementLoop e s k n = \<lparr>angle = Math_random e k * pi * 2,
            candidate = ringPosition radius (Math_random e k * pi * 2),
            attempts = Suc n, drawn = Suc k\<rparr>"
        using close False by (subst placementLoop.simps) simp
      show ?thesis unfolding eq using close n by simp
    qed
  qed
qed


lemma addNode_position:
  "nodes (addNode p now s) = nodes s @ [allocated s] \<and>
   position (heap (addNode p now s) (allocated s)) = p \<and>
   connections (heap (addNode p now s) (allocated s)) = [] \<and>
   nodeId (heap (addNode p now s) (allocated s)) = ''node-'' @ digits now"
  by (simp add: addNode_def pushNode_def newBitcoinNode_def Let_def)

lemma blocked_at_zero: "isTooClose initialState (ringPosition radius (Math_random frameZero k * pi * 2))"
  by (simp add: isTooClose_def initialState_def ringPosition_def frameZero_def Distance_def
        minDistance_def radius_def)

lemma blocked_loop: "attempts (placementLoop frameZero initialState 1 0) = 10"
  by (simp add: placementLoop.simps blocked_at_zero)

section \<open>Auxiliary facts about object references\<close>

lemma advance_refs:
  "nodes (advance thr nx s) = nodes s \<and> allocated (advance thr nx s) = allocated s"
  by (simp add: advance_def updateInstructions_def)

lemma discoverPeers_refs:
  "discoverPeers e s = Inr s' \<Longrightarrow> nodes s' = nodes s \<and> allocated s' = allocated s"
  by (auto simp: discoverPeers_def Let_def setTimeout_def sendPacket_def
        split: option.splits if_splits)

lemma syncing_forEach_refs:
  "nodes (syncing_forEach e ns k s) = nodes s \<and> allocated (syncing_forEach e ns k s) = allocated s"
proof (induction ns arbitrary: k s)
  case Nil
  show ?case by simp
next
  case (Cons n ns)
  show ?case
    by (simp add: Let_def Cons.IH showSyncProgress_def sendPacket_def split: option.splits)
qed

lemma processTransaction_refs:
  "processTransaction e s = Inr s' \<Longrightarrow> nodes s' = nodes s \<and> allocated s' = allocated s"
  by (auto simp: processTransaction_def setTimeout_def sendPacket_def setProcessing_def
        split: option.splits if_splits)

lemma fireTimeout_refs:
  "nodes (fireTimeout i s) = nodes s \<and> allocated (fireTimeout i s) = allocated s"
proof (cases "i < length (timeouts s)")
  case False
  then show ?thesis by (simp add: fireTimeout_def)
next
  case True
  then show ?thesis
    by (cases "snd (timeouts s ! i)")
       (simp_all add: fireTimeout_def connectTo_def addConnection_def setProcessing_def Let_def)
qed

lemma pushNode_fresh: "freshRefs s \<Longrightarrow> freshRefs (pushNode p n s)"
  by (auto simp: freshRefs_def pushNode_def newBitcoinNode_def Let_def)

lemma shutdown_forEach_allocated: "allocated (shutdown_forEach this ns s) = allocated s"
  by (induction ns arbitrary: s) (simp_all add: removeConnection_def)

lemma removeNode_fresh:
  assumes "freshRefs s" and "removeNode i s = Inr s'"
  shows "freshRefs s'"
proof -
  have a: "allocated s' = allocated s"
    using assms(2)
    by (auto simp: removeNode_def Let_def shutdown_def shutdown_forEach_allocated
          split: option.splits)
  have n: "nodes s' = splice1 (nat i) (nodes s)" by (rule removeNode_nodes[OF assms(2)])
  have "set (splice1 (nat i) (nodes s)) \<subseteq> set (nodes s)"
    by (auto simp: splice1_def dest: in_set_takeD in_set_dropD)
  with assms(1) a n show ?thesis
    by (auto simp: freshRefs_def distinct_splice1)
qed

lemma changeMembership_fresh:
  assumes "freshRefs s" and "changeMembership e s = Inr s'"
  shows "freshRefs s'"
  using assms
  by (auto simp: changeMembership_def addNode_def pushNode_fresh dest: removeNode_fresh
        split: if_splits)

lemma leave_fresh: "freshRefs s \<Longrightarrow> freshRefs (leaveNetworkChanges s)"
proof -
  assume f: "freshRefs s"
  have u: "\<And>t p. freshRefs t \<Longrightarrow>
      freshRefs (updateInstructions (t\<lparr>currentPhase := p, phaseTimer := 0\<rparr>))"
    by (simp add: freshRefs_def updateInstructions_def)
  show ?thesis
    using f by (simp add: leaveNetworkChanges_def Let_def u pushNode_fresh)
qed

lemma same_refs_fresh:
  "freshRefs s \<Longrightarrow> nodes s' = nodes s \<and> allocated s' = allocated s \<Longrightarrow> freshRefs s'"
  by (simp add: freshRefs_def)

lemma frame_fresh:
  assumes f: "freshRefs s" and r: "onBeforeRender e s = Inr s'"
  shows "freshRefs s'"
  using r
proof (cases rule: frame_cases)
  case paused
  with f show ?thesis by simp
next
  case (discovery s1)
  then have "nodes s' = nodes s \<and> allocated s' = allocated s"
    by (auto simp: advance_refs dest: discoverPeers_refs)
  with f show ?thesis by (rule same_refs_fresh)
next
  case syncing
  then have "nodes s' = nodes s \<and> allocated s' = allocated s"
    by (simp add: advance_refs syncing_forEach_refs)
  with f show ?thesis by (rule same_refs_fresh)
next
  case (processing s1)
  then have "nodes s' = nodes s \<and> allocated s' = allocated s"
    by (auto simp: advance_refs dest: processTransaction_refs)
  with f show ?thesis by (rule same_refs_fresh)
next
  case (changes s1)
  have "freshRefs (s\<lparr>phaseTimer := phaseTimer s + getDeltaTime e * speed s\<rparr>)"
    using f by (simp add: freshRefs_def)
  from changeMembership_fresh[OF this changes(3)] have "freshRefs s1" .
  with changes(4) show ?thesis by (simp add: leave_fresh)
qed

lemma reachable_fresh: "reachable s \<Longrightarrow> freshRefs s"
proof (induction rule: reachable.induct)
  case start
  show ?case by (simp add: freshRefs_def initialState_def)
next
  case (after s ev s')
  show ?case
  proof (cases ev)
    case (Frame e)
    with after.hyps(3) have "onBeforeRender e s = Inr s'" by simp
    from frame_fresh[OF after.IH this] show ?thesis .
  next
    case (TimeoutDue i)
    with after.hyps(3) have "s' = fireTimeout i s" by simp
    with after.IH fireTimeout_refs[of i s] show ?thesis by (simp add: freshRefs_def)
  next
    case PlayPause
    with after.hyps(3) after.IH show ?thesis by (auto simp: freshRefs_def)
  next
    case Theme
    with after.hyps(3) after.IH show ?thesis by (auto simp: freshRefs_def)
  qed
qed

lemma reachable_distinct: "reachable s \<Longrightarrow> distinct (nodes s)"
  using reachable_fresh by (simp add: freshRefs_def)

section \<open>Auxiliary facts about the run with two joins\<close>

lemmas trace_defs = afterFirstFrame_def twoNodes_def inSyncing_def inProcessing_def
  inNetworkChanges_def firstJoin_def secondJoin_def
  updateInstructions_def showSyncProgress_def addNode_def pushNode_def newBitcoinNode_def
  initialState_def Let_def digits_example

lemma floor_half_two: "\<lfloor>1 / 2 * real (2::nat)\<rfloor> = 1"
  by simp

lemma step_discovery: "onBeforeRender (quietFrame 5001) afterFirstFrame = Inr inSyncing"
  by (simp add: trace_defs quietFrame_def onBeforeRender_def handleDiscoveryPhase_def
        discoveryCadence_def js_rem_zero discoverPeers_def elem_at_def advance_def)

lemma js_rem_8001: "js_rem 8001 2000 = 1"
  by (simp add: js_rem_def)

lemma step_syncing: "onBeforeRender (quietFrame 8001) inSyncing = Inr inProcessing"
  by (simp add: trace_defs quietFrame_def onBeforeRender_def handleSyncingPhase_def
        js_rem_8001 advance_def)

lemma step_processing: "onBeforeRender (quietFrame 6001) inProcessing = Inr inNetworkChanges"
  by (simp add: trace_defs quietFrame_def onBeforeRender_def handleProcessingPhase_def
        processingCadence_def js_rem_zero processTransaction_def elem_at_def advance_def)


lemma Distance_less:
  "Distance a b < d \<longleftrightarrow>
     0 < d \<and> (vx a - vx b)\<^sup>2 + (vy a - vy b)\<^sup>2 + (vz a - vz b)\<^sup>2 < d\<^sup>2"
proof (cases "0 < d")
  case False
  have "0 \<le> Distance a b" by (simp add: Distance_def)
  with False show ?thesis by simp
next
  case True
  then have "Distance a b < d \<longleftrightarrow> Distance a b < sqrt (d\<^sup>2)" by simp
  also have "\<dots> \<longleftrightarrow> (vx a - vx b)\<^sup>2 + (vy a - vy b)\<^sup>2 + (vz a - vz b)\<^sup>2 < d\<^sup>2"
    unfolding Distance_def by (rule real_sqrt_less_iff)
  finally show ?thesis using True by simp
qed

lemma ringPosition_quarter: "ringPosition r (1 / 4 * pi * 2) = \<lparr>vx = 0, vy = 0, vz = r\<rparr>"
proof -
  have "1 / 4 * pi * 2 = pi / 2" by simp
  then show ?thesis by (simp add: ringPosition_def)
qed

lemma ringPosition_at_pi: "ringPosition r pi = \<lparr>vx = - r, vy = 0, vz = 0\<rparr>"
  by (simp add: ringPosition_def)

lemma ringPosition_half_pi: "ringPosition r (pi / 2) = \<lparr>vx = 0, vy = 0, vz = r\<rparr>"
  by (simp add: ringPosition_def)

lemma free_first:
  "\<not> isTooClose (inNetworkChanges\<lparr>phaseTimer := 2\<rparr>) \<lparr>vx = 0, vy = 0, vz = radius\<rparr>"
  by (simp add: isTooClose_def trace_defs Distance_less minDistance_def radius_def
        ringPosition_at_pi)

lemma blocked_second:
  "isTooClose (firstJoin\<lparr>phaseTimer := 18\<rparr>) \<lparr>vx = 0, vy = 0, vz = radius\<rparr>"
  by (simp add: isTooClose_def trace_defs Distance_less minDistance_def radius_def
        ringPosition_at_pi ringPosition_half_pi)

lemma joinFrame_draws: "k \<noteq> 0 \<Longrightarrow> Math_random (joinFrame d) k = 1 / 4"
  by (simp add: joinFrame_def)

lemma find_first:
  "findPosition (joinFrame 2) (inNetworkChanges\<lparr>phaseTimer := 2\<rparr>) 1 = ringPosition radius (pi / 2)"
  by (simp add: findPosition_def Let_def placementLoop.simps joinFrame_draws
        ringPosition_quarter ringPosition_half_pi free_first)

lemma loop_second:
  "placementLoop (joinFrame 16) (firstJoin\<lparr>phaseTimer := 18\<rparr>) 1 0 =
     \<lparr>angle = 1 / 4 * pi * 2, candidate = \<lparr>vx = 0, vy = 0, vz = radius\<rparr>, attempts = 10, drawn = 11\<rparr>"
  by (simp add: placementLoop.simps joinFrame_draws ringPosition_quarter ringPosition_half_pi
        blocked_second)

lemma find_second:
  "findPosition (joinFrame 16) (firstJoin\<lparr>phaseTimer := 18\<rparr>) 1 =
     ringPosition (radius * (1 + 1 / 4 * 0.4)) (pi / 2)"
  using loop_second
  by (simp add: findPosition_def Let_def joinFrame_draws ringPosition_quarter ringPosition_half_pi)

lemma js_rem_small: "js_rem 2 2000 = 2" "js_rem 18 2000 = 18"
  by (simp_all add: js_rem_def)

lemma step_first_join: "onBeforeRender (joinFrame 2) inNetworkChanges = Inr firstJoin"
proof -
  let ?s0 = "inNetworkChanges\<lparr>phaseTimer := 2\<rparr>"
  have st: "isRunning inNetworkChanges" "currentPhase inNetworkChanges = NETWORK_CHANGES"
    "phaseTimer inNetworkChanges = 0" "speed inNetworkChanges = 1"
    "length (nodes inNetworkChanges) = 2" "initialNodeCount inNetworkChanges = 1"
    by (simp_all add: trace_defs)
  have e: "getDeltaTime (joinFrame 2) = 2" "Math_random (joinFrame 2) 0 = 3 / 4"
    "Date_now (joinFrame 2) = 1700000000000"
    by (simp_all add: joinFrame_def)
  have c: "changeMembership (joinFrame 2) ?s0 = Inr firstJoin"
    using find_first
    by (simp add: changeMembership_def st e js_rem_small minNodes_def maxNodes_def firstJoin_def)
  have l: "leaveNetworkChanges firstJoin = firstJoin"
    by (simp add: leaveNetworkChanges_def firstJoin_def addNode_def pushNode_def
          newBitcoinNode_def Let_def)
  show ?thesis
    by (simp add: onBeforeRender_def Let_def st e handleNetworkChanges_def c l)
qed

lemma step_second_join: "onBeforeRender (joinFrame 16) firstJoin = Inr secondJoin"
proof -
  let ?s0 = "firstJoin\<lparr>phaseTimer := 18\<rparr>"
  have st: "isRunning firstJoin" "currentPhase firstJoin = NETWORK_CHANGES"
    "phaseTimer firstJoin = 2" "speed firstJoin = 1"
    "length (nodes firstJoin) = 3" "initialNodeCount firstJoin = 1"
    by (simp_all add: trace_defs)
  have e: "getDeltaTime (joinFrame 16) = 16" "Math_random (joinFrame 16) 0 = 3 / 4"
    "Date_now (joinFrame 16) = 1700000000000"
    by (simp_all add: joinFrame_def)
  have c: "changeMembership (joinFrame 16) ?s0 = Inr secondJoin"
    using find_second
    by (simp add: changeMembership_def st e js_rem_small minNodes_def maxNodes_def secondJoin_def)
  have l: "leaveNetworkChanges secondJoin = secondJoin"
    by (simp add: leaveNetworkChanges_def secondJoin_def addNode_def pushNode_def
          newBitcoinNode_def Let_def)
  show ?thesis
    by (simp add: onBeforeRender_def Let_def st e handleNetworkChanges_def c l)
qed

lemma unit_join: "unitInterval (Math_random (joinFrame d))"
  by (simp add: unitInterval_def joinFrame_def)

lemma unit_quiet: "unitInterval (Math_random (quietFrame d))"
  by (simp add: unitInterval_def quietFrame_def)

lemma reachable_secondJoin: "reachable secondJoin"
proof -
  have a: "reachable inSyncing"
    by (rule reachable.after[OF reachable_afterFirstFrame, of "Frame (quietFrame 5001)"])
       (simp_all add: step_discovery unit_quiet, simp add: quietFrame_def)
  have b: "reachable inProcessing"
    by (rule reachable.after[OF a, of "Frame (quietFrame 8001)"])
       (simp_all add: step_syncing unit_quiet, simp add: quietFrame_def)
  have c: "reachable inNetworkChanges"
    by (rule reachable.after[OF b, of "Frame (quietFrame 6001)"])
       (simp_all add: step_processing unit_quiet, simp add: quietFrame_def)
  have d: "reachable firstJoin"
    by (rule reachable.after[OF c, of "Frame (joinFrame 2)"])
       (simp_all add: step_first_join unit_join, simp add: joinFrame_def)
  show ?thesis
    by (rule reachable.after[OF d, of "Frame (joinFrame 16)"])
       (simp_all add: step_second_join unit_join, simp add: joinFrame_def)
qed

section \<open>The connection graph stays symmetric\<close>

text \<open>
  Claim C1 as stated, for any symmetric state, fails where two nodes of the array share an
  id: in the reachable state with two nodes \<^verbatim>\<open>node-1700000000000\<close> no node lists any other,
  and connecting the first of the two to \<^verbatim>\<open>node-0\<close> makes \<^verbatim>\<open>node-0\<close> list an id whose second
  bearer does not list \<^verbatim>\<open>node-0\<close> back.
\<close>

theorem symmetry_counterexample:
  "symmetric secondJoin \<and>
   run_operations [Connect 2 0] secondJoin = Inr (connectTo 2 0 secondJoin) \<and>
   \<not> symmetric (connectTo 2 0 secondJoin)"
proof -
  have n: "nodes secondJoin = [0, 1, 2, 3]" by (simp add: trace_defs)
  have c: "connections (heap secondJoin 0) = []" "connections (heap secondJoin 1) = []"
    "connections (heap secondJoin 2) = []" "connections (heap secondJoin 3) = []"
    by (simp_all add: trace_defs)
  have i: "nodeId (heap secondJoin 0) = ''node-0''" "nodeId (heap secondJoin 2) = ''node-1700000000000''"
    "nodeId (heap secondJoin 3) = ''node-1700000000000''"
    by (simp_all add: trace_defs)
  have a: "symmetric secondJoin" using c by (simp add: symmetric_def n)
  have b: "run_operations [Connect 2 0] secondJoin = Inr (connectTo 2 0 secondJoin)"
    by (simp add: n elem_at_def)
  have m: "nodeId (heap secondJoin 3) \<in> set (connections (heap (connectTo 2 0 secondJoin) 0))"
    by (simp add: connectTo_conn_set c i)
  have k: "nodeId (heap secondJoin 0) \<notin> set (connections (heap (connectTo 2 0 secondJoin) 3))"
    by (simp add: connectTo_conn_set c i)
  have "\<not> symmetric (connectTo 2 0 secondJoin)"
  proof
    assume "symmetric (connectTo 2 0 secondJoin)"
    then have "nodeId (heap secondJoin 3) \<in> set (connections (heap (connectTo 2 0 secondJoin) 0)) \<longrightarrow>
        nodeId (heap secondJoin 0) \<in> set (connections (heap (connectTo 2 0 secondJoin) 3))"
      unfolding symmetric_def connectTo_nodes connectTo_nodeId n by simp
    with m k show False by simp
  qed
  with a b show ?thesis by simp
qed

text \<open>
  Claim C1, amended. Start from a network whose connection graph is symmetric and whose
  nodes carry pairwise distinct ids. Then every run of \<open>Connect\<close> and \<open>RemoveNode\<close>
  operations that completes ends in a symmetric graph, again with distinct ids. Moreover
  \<^verbatim>\<open>connectTo\<close> between two nodes of the network leaves each id in the other's connection
  set, and after \<^verbatim>\<open>shutdown\<close> no other node of the array it was given lists the departing
  id.
\<close>

theorem symmetry_preserved:
  assumes "symmetric s" and "distinct (ids s)"
  shows "(\<forall>xs s'. run_operations xs s = Inr s' \<longrightarrow> symmetric s' \<and> distinct (ids s')) \<and>
         (\<forall>a \<in> set (nodes s). \<forall>b \<in> set (nodes s).
            nodeId (heap s b) \<in> set (connections (heap (connectTo a b s) a)) \<and>
            nodeId (heap s a) \<in> set (connections (heap (connectTo a b s) b))) \<and>
         (\<forall>this ns. \<forall>n \<in> set ns. n \<noteq> this \<longrightarrow>
            nodeId (heap s this) \<notin> set (connections (heap (shutdown this ns s) n)))"
proof (intro conjI)
  show "\<forall>xs s'. run_operations xs s = Inr s' \<longrightarrow> symmetric s' \<and> distinct (ids s')"
    using run_operations_invariant[OF assms] by blast
  show "\<forall>a \<in> set (nodes s). \<forall>b \<in> set (nodes s).
            nodeId (heap s b) \<in> set (connections (heap (connectTo a b s) a)) \<and>
            nodeId (heap s a) \<in> set (connections (heap (connectTo a b s) b))"
    using assms(1) by (auto simp: connectTo_conn_set symmetric_def)
  show "\<forall>this ns. \<forall>n \<in> set ns. n \<noteq> this \<longrightarrow>
            nodeId (heap s this) \<notin> set (connections (heap (shutdown this ns s) n))"
    by (simp add: shutdown_heap shutdown_forEach_heap)
qed

text \<open>
  The theorem at the three-node network: connect all pairs, remove the middle node,
  reconnect; the run completes with two nodes and a symmetric graph.
\<close>

theorem symmetry_preserved_witness:
  "symmetric threeNodes \<and> distinct (ids threeNodes) \<and>
   (\<exists>s'. run_operations [Connect 0 1, Connect 1 2, Connect 2 0, RemoveNode 1, Connect 0 1] threeNodes = Inr s' \<and>
      symmetric s' \<and> length (nodes s') = 2)"
proof -
  have h1: "symmetric threeNodes"
    by (simp add: symmetric_def build_defs)
  have h2: "distinct (ids threeNodes)"
    by (simp add: ids_def build_defs)
  have "\<exists>s'. run_operations [Connect 0 1, Connect 1 2, Connect 2 0, RemoveNode 1, Connect 0 1] threeNodes = Inr s' \<and> length (nodes s') = 2"
    by (simp add: build_defs elem_at_def connectTo_def addConnection_def set_add_def removeNode_def
        splice1_def shutdown_def removeConnection_def set_delete_def)
  then obtain s' where r: "run_operations [Connect 0 1, Connect 1 2, Connect 2 0, RemoveNode 1, Connect 0 1] threeNodes = Inr s'"
     and l: "length (nodes s') = 2"
    by blast
  from symmetry_preserved[OF h1 h2] r have "symmetric s'" by blast
  with h1 h2 r l show ?thesis by blast
qed

section \<open>connectTo\<close>

text \<open>
  Claim C6 as stated fails for \<open>a = b\<close>: \<^verbatim>\<open>connectTo\<close> does not compare the two nodes, and
  on the single node of the initial state it changes that node's connection set.
\<close>

theorem connectTo_self_counterexample:
  "connections (heap (connectTo 0 0 initialState) 0) \<noteq> connections (heap initialState 0)"
  by (simp add: connectTo_def addConnection_def set_add_def initialState_def Let_def)

text \<open>
  Claim C6, amended. \<^verbatim>\<open>connectTo(a, b)\<close> changes nothing when \<open>a\<close>'s connection set already
  holds \<open>b\<close>'s id, so a second call equals the first. Otherwise it appends \<open>b\<close>'s id to \<open>a\<close>'s
  set and adds \<open>a\<close>'s id to \<open>b\<close>'s set, leaves every other node and the array alone and draws
  one line; for \<open>a = b\<close> this appends the node's own id to its own set. The case \<open>a = b\<close> is
  excluded by the caller: the discovery step only ever schedules a connection between two
  different nodes.
\<close>

theorem connectTo_effect:
  "(nodeId (heap s b) \<in> set (connections (heap s a)) \<longrightarrow> connectTo a b s = s) \<and>
   connectTo a b (connectTo a b s) = connectTo a b s \<and>
   (nodeId (heap s b) \<notin> set (connections (heap s a)) \<longrightarrow>
      heap (connectTo a b s) a =
        (heap s a)\<lparr>connections :=
           (if a = b then connections (heap s a) @ [nodeId (heap s a)]
            else connections (heap s a) @ [nodeId (heap s b)])\<rparr> \<and>
      heap (connectTo a b s) b =
        (heap s b)\<lparr>connections :=
           (if a = b then connections (heap s a) @ [nodeId (heap s a)]
            else set_add (nodeId (heap s a)) (connections (heap s b)))\<rparr> \<and>
      (\<forall>n. n \<noteq> a \<and> n \<noteq> b \<longrightarrow> heap (connectTo a b s) n = heap s n) \<and>
      nodes (connectTo a b s) = nodes s \<and>
      calls (connectTo a b s) = calls s @ [CreateLines a b]) \<and>
   (\<forall>e s'. discoverPeers e s = Inr s' \<longrightarrow>
      (\<forall>d x y. (d, ConnectLater x y) \<in> set (timeouts s') \<longrightarrow>
         (d, ConnectLater x y) \<in> set (timeouts s) \<or> x \<noteq> y))"
proof (intro conjI)
  show "nodeId (heap s b) \<in> set (connections (heap s a)) \<longrightarrow> connectTo a b s = s"
    by (simp add: connectTo_def)
  show "connectTo a b (connectTo a b s) = connectTo a b s"
    by (rule connectTo_idem)
  show "nodeId (heap s b) \<notin> set (connections (heap s a)) \<longrightarrow>
      heap (connectTo a b s) a =
        (heap s a)\<lparr>connections :=
           (if a = b then connections (heap s a) @ [nodeId (heap s a)]
            else connections (heap s a) @ [nodeId (heap s b)])\<rparr> \<and>
      heap (connectTo a b s) b =
        (heap s b)\<lparr>connections :=
           (if a = b then connections (heap s a) @ [nodeId (heap s a)]
            else set_add (nodeId (heap s a)) (connections (heap s b)))\<rparr> \<and>
      (\<forall>n. n \<noteq> a \<and> n \<noteq> b \<longrightarrow> heap (connectTo a b s) n = heap s n) \<and>
      nodes (connectTo a b s) = nodes s \<and>
      calls (connectTo a b s) = calls s @ [CreateLines a b]"
    by (simp add: connectTo_def addConnection_def set_add_def Let_def)
  show "\<forall>e s'. discoverPeers e s = Inr s' \<longrightarrow>
      (\<forall>d x y. (d, ConnectLater x y) \<in> set (timeouts s') \<longrightarrow>
         (d, ConnectLater x y) \<in> set (timeouts s) \<or> x \<noteq> y)"
    using discoverPeers_timeouts by fastforce
qed

text \<open>
  The theorem where \<^verbatim>\<open>node-0\<close> is connected to \<^verbatim>\<open>node-1\<close> in the three-node network: each
  gains the other's id, and a second call changes nothing.
\<close>

theorem connectTo_effect_witness:
  "nodeId (heap threeNodes 1) \<notin> set (connections (heap threeNodes 0)) \<and>
   connections (heap (connectTo 0 1 threeNodes) 0) = [''node-1''] \<and>
   connections (heap (connectTo 0 1 threeNodes) 1) = [''node-0''] \<and>
   nodeId (heap (connectTo 0 1 threeNodes) 1) \<in> set (connections (heap (connectTo 0 1 threeNodes) 0)) \<and>
   connectTo 0 1 (connectTo 0 1 threeNodes) = connectTo 0 1 threeNodes"
proof -
  have h: "nodeId (heap threeNodes 1) \<notin> set (connections (heap threeNodes 0))"
    by (simp add: threeNodes_def twoNodes_def addNode_def pushNode_def newBitcoinNode_def initialState_def Let_def digits_example)
  have c: "connections (heap threeNodes 0) = []" "connections (heap threeNodes 1) = []"
     "nodeId (heap threeNodes 0) = ''node-0''" "nodeId (heap threeNodes 1) = ''node-1''" 
    by (simp_all add: threeNodes_def twoNodes_def addNode_def pushNode_def newBitcoinNode_def initialState_def Let_def digits_example)
  from connectTo_effect[of threeNodes 1 0] h c show ?thesis
    by (simp add: set_add_def)
qed

section \<open>Removing a node\<close>

text \<open>
  Claim C7. Removing the node at a valid index of an array of distinct objects succeeds,
  takes exactly that node out of the array, and leaves no node of the array with the
  removed id in its connection set; so the peer selection on any remaining node never
  yields a node with the removed id.
\<close>

theorem removeNode_clears_id:
  assumes "distinct (nodes s)" and "elem_at (nodes s) index = Some node"
  shows "\<exists>s'. removeNode index s = Inr s' \<and>
           nodes s' = splice1 (nat index) (nodes s) \<and>
           set (nodes s') = set (nodes s) - {node} \<and>
           Suc (length (nodes s')) = length (nodes s) \<and>
           (\<forall>n \<in> set (nodes s'). nodeId (heap s node) \<notin> set (connections (heap s' n))) \<and>
           (\<forall>n \<in> set (nodes s'). \<forall>u t. pickRandomConnectedPeer u n s' = Some t \<longrightarrow>
                nodeId (heap s' t) \<noteq> nodeId (heap s node))"
proof -
  from removeNode_Some[OF assms(2)] obtain s' where r: "removeNode index s = Inr s'" ..
  from assms(2) have i: "nat index < length (nodes s)"
    by (auto dest: elem_at_Some)
  have n: "nodes s' = splice1 (nat index) (nodes s)"
    by (rule removeNode_nodes[OF r])
  have st: "set (nodes s') = set (nodes s) - {node}"
    by (rule removeNode_set[OF assms r])
  have len: "Suc (length (nodes s')) = length (nodes s)"
    using length_splice1[OF i] n by simp
  have c: "\<forall>n \<in> set (nodes s'). nodeId (heap s node) \<notin> set (connections (heap s' n))"
    using st by (auto simp: removeNode_heap[OF assms(2) r])
  have p: "\<forall>n \<in> set (nodes s'). \<forall>u t. pickRandomConnectedPeer u n s' = Some t \<longrightarrow>
                nodeId (heap s' t) \<noteq> nodeId (heap s node)"
  proof (intro ballI allI impI)
    fix n u t assume "n \<in> set (nodes s')" and "pickRandomConnectedPeer u n s' = Some t"
    then have "nodeId (heap s' t) \<in> set (connections (heap s' n))"
      by (auto dest: pick_in_connections)
    with c \<open>n \<in> set (nodes s')\<close> show "nodeId (heap s' t) \<noteq> nodeId (heap s node)" by metis
  qed
  from r n st len c p show ?thesis by blast
qed

text \<open>
  The theorem at the three-node network after \<^verbatim>\<open>node-0\<close> and \<^verbatim>\<open>node-1\<close> were connected:
  removing \<^verbatim>\<open>node-1\<close> clears its id from its former neighbour.
\<close>

theorem removeNode_clears_id_witness:
  "distinct (nodes (connectTo 0 1 threeNodes)) \<and>
   elem_at (nodes (connectTo 0 1 threeNodes)) 1 = Some 1 \<and>
   nodeId (heap (connectTo 0 1 threeNodes) 1) \<in> set (connections (heap (connectTo 0 1 threeNodes) 0)) \<and>
   (\<exists>s'. removeNode 1 (connectTo 0 1 threeNodes) = Inr s' \<and> nodes s' = [0, 2] \<and>
      nodeId (heap (connectTo 0 1 threeNodes) 1) \<notin> set (connections (heap s' 0)) \<and>
      (\<forall>u t. pickRandomConnectedPeer u 0 s' = Some t \<longrightarrow>
          nodeId (heap s' t) \<noteq> nodeId (heap (connectTo 0 1 threeNodes) 1)))"
proof -
  have n: "nodes (connectTo 0 1 threeNodes) = [0, 1, 2]"
    by (simp add: connectTo_nodes build_defs)
  have h1: "distinct (nodes (connectTo 0 1 threeNodes))"
    unfolding n by simp
  have h2: "elem_at (nodes (connectTo 0 1 threeNodes)) 1 = Some 1"
    unfolding n by (simp add: elem_at_def)
  have h3: "nodeId (heap (connectTo 0 1 threeNodes) 1) \<in> set (connections (heap (connectTo 0 1 threeNodes) 0))"
    by (simp add: connectTo_nodeId connectTo_conn_set)
  from removeNode_clears_id[OF h1 h2] obtain s' where
    r: "removeNode 1 (connectTo 0 1 threeNodes) = Inr s'"
    and ns: "nodes s' = splice1 (nat 1) (nodes (connectTo 0 1 threeNodes))"
    and c: "\<forall>n \<in> set (nodes s'). nodeId (heap (connectTo 0 1 threeNodes) 1) \<notin> set (connections (heap s' n))"
    and p: "\<forall>n \<in> set (nodes s'). \<forall>u t. pickRandomConnectedPeer u n s' = Some t \<longrightarrow>
                nodeId (heap s' t) \<noteq> nodeId (heap (connectTo 0 1 threeNodes) 1)"
    by blast
  have ns': "nodes s' = [0, 2]" unfolding ns n by (simp add: splice1_def)
  with c p r h1 h2 h3 show ?thesis by simp
qed

section \<open>The phase cycle\<close>

text \<open>
  Claim C3. A frame with \<^verbatim>\<open>Math.random()\<close> in \<open>[0, 1)\<close> on a non-empty network completes. It
  moves to the next phase of the cycle Discovery, Syncing, Processing, NetworkChanges,
  Discovery exactly when the simulation is running and the timer, after the scaled frame
  time was added, exceeds the threshold of the current phase (5000, 8000, 6000, 7000);
  then the timer is 0 and \<^verbatim>\<open>updateInstructions\<close> ran once, for the new phase. In every
  other case the phase stays and the instructions are not refreshed. No other event
  (a timeout, a button) changes the phase, the timer or the instructions.
\<close>

theorem phase_cycle:
  assumes "unitInterval (Math_random e)" and "nodes s \<noteq> []"
  shows "(\<exists>s'. onBeforeRender e s = Inr s' \<and>
            (if isRunning s \<and> threshold (currentPhase s) < phaseTimer s + getDeltaTime e * speed s
             then currentPhase s' = nextPhase (currentPhase s) \<and> phaseTimer s' = 0 \<and>
                  notified (calls s') = notified (calls s) @ [nextPhase (currentPhase s)]
             else currentPhase s' = currentPhase s \<and>
                  phaseTimer s' = (if isRunning s then phaseTimer s + getDeltaTime e * speed s
                                   else phaseTimer s) \<and>
                  notified (calls s') = notified (calls s))) \<and>
         (\<forall>ev s'. handle ev s = Inr s' \<and> (\<forall>e'. ev \<noteq> Frame e') \<longrightarrow>
            currentPhase s' = currentPhase s \<and> phaseTimer s' = phaseTimer s \<and>
            notified (calls s') = notified (calls s))"
proof (intro conjI)
  from onBeforeRender_completes[OF assms] obtain s' where r: "onBeforeRender e s = Inr s'" ..
  show "\<exists>s'. onBeforeRender e s = Inr s' \<and>
            (if isRunning s \<and> threshold (currentPhase s) < phaseTimer s + getDeltaTime e * speed s
             then currentPhase s' = nextPhase (currentPhase s) \<and> phaseTimer s' = 0 \<and>
                  notified (calls s') = notified (calls s) @ [nextPhase (currentPhase s)]
             else currentPhase s' = currentPhase s \<and>
                  phaseTimer s' = (if isRunning s then phaseTimer s + getDeltaTime e * speed s
                                   else phaseTimer s) \<and>
                  notified (calls s') = notified (calls s))"
  proof (cases "isRunning s")
    case True
    with running_frame_phase[OF r True] r show ?thesis by (intro exI[of _ s']) (simp split: if_splits)
  next
    case False
    then have "onBeforeRender e s = Inr s" by (simp add: onBeforeRender_def)
    with False show ?thesis by simp
  qed
  show "\<forall>ev s'. handle ev s = Inr s' \<and> (\<forall>e'. ev \<noteq> Frame e') \<longrightarrow>
            currentPhase s' = currentPhase s \<and> phaseTimer s' = phaseTimer s \<and>
            notified (calls s') = notified (calls s)"
    using other_events_schedule by blast
qed

text \<open>
  The theorem in the syncing phase with a 16 ms frame: from 7990 ms the frame crosses the
  threshold and enters Processing; from 7980 ms it stays in Syncing at 7996 ms.
\<close>

theorem phase_cycle_witness:
  "unitInterval (Math_random frame16) \<and> nodes twoNodes \<noteq> [] \<and>
   (\<exists>s'. onBeforeRender frame16 (twoNodes\<lparr>currentPhase := SYNCING, phaseTimer := 7990\<rparr>) = Inr s' \<and>
      currentPhase s' = PROCESSING \<and> phaseTimer s' = 0) \<and>
   (\<exists>s'. onBeforeRender frame16 (twoNodes\<lparr>currentPhase := SYNCING, phaseTimer := 7980\<rparr>) = Inr s' \<and>
      currentPhase s' = SYNCING \<and> phaseTimer s' = 7996)"
proof -
  have u: "unitInterval (Math_random frame16)" by (simp add: unitInterval_def frame16_def)
  have n: "nodes twoNodes \<noteq> []" by (simp add: build_defs)
  have n1: "nodes (twoNodes\<lparr>currentPhase := SYNCING, phaseTimer := 7990\<rparr>) \<noteq> []" using n by simp
  have n2: "nodes (twoNodes\<lparr>currentPhase := SYNCING, phaseTimer := 7980\<rparr>) \<noteq> []" using n by simp
  have r: "isRunning twoNodes" "speed twoNodes = 1" by (simp_all add: build_defs)
  have a: "\<exists>s'. onBeforeRender frame16 (twoNodes\<lparr>currentPhase := SYNCING, phaseTimer := 7990\<rparr>) = Inr s' \<and>
      currentPhase s' = PROCESSING \<and> phaseTimer s' = 0"
    using conjunct1[OF phase_cycle[OF u n1]] r by (auto simp: frame16_def)
  have b: "\<exists>s'. onBeforeRender frame16 (twoNodes\<lparr>currentPhase := SYNCING, phaseTimer := 7980\<rparr>) = Inr s' \<and>
      currentPhase s' = SYNCING \<and> phaseTimer s' = 7996"
    using conjunct1[OF phase_cycle[OF u n2]] r by (auto simp: frame16_def)
  from u n a b show ?thesis by blast
qed

section \<open>Pausing\<close>

text \<open>
  Claim C4. While \<^verbatim>\<open>isRunning\<close> is false, any sequence of frames, whatever their frame
  times and random draws, returns the state unchanged: timer, phase, nodes, pending
  timeouts and the log of renderer calls included.
\<close>

theorem paused_frames:
  assumes "\<not> isRunning s"
  shows "ticks es s = Inr s"
  using assms by (induction es) (simp_all add: onBeforeRender_def)

text \<open>The theorem for ten frames on the paused two-node network.\<close>

theorem paused_frames_witness:
  "\<not> isRunning (twoNodes\<lparr>isRunning := False\<rparr>) \<and>
   ticks (replicate 10 frame16) (twoNodes\<lparr>isRunning := False\<rparr>) = Inr (twoNodes\<lparr>isRunning := False\<rparr>)"
  using paused_frames[of "twoNodes\<lparr>isRunning := False\<rparr>" "replicate 10 frame16"] by simp

section \<open>The first frame\<close>

text \<open>
  Claim C5. From the initial state (one node, phase NetworkChanges, timer 6900, speed 1,
  running) a frame of 200 ms brings the timer to 7100, pushes \<^verbatim>\<open>node-1\<close> at the point
  opposite the first node, and enters Discovery with the timer at 0 and exactly two
  nodes, whatever the random draws and the clock.
\<close>

theorem first_frame:
  "\<exists>s'. onBeforeRender (e\<lparr>getDeltaTime := 200\<rparr>) initialState = Inr s' \<and>
     phaseTimer initialState + 200 * speed initialState = 7100 \<and>
     currentPhase s' = DISCOVERY \<and> phaseTimer s' = 0 \<and>
     nodes s' = [0, 1] \<and> ids s' = [''node-0'', ''node-1''] \<and> nodeCount s' = 2 \<and>
     heap s' 1 = \<lparr>nodeId = ''node-1'', connections = [], position = \<lparr>vx = - 5, vy = 0, vz = 0\<rparr>\<rparr> \<and>
     calls s' = [UpdateInstructions NETWORK_CHANGES, UpdateInstructions DISCOVERY]"
  by (simp add: onBeforeRender_def handleNetworkChanges_def changeMembership_def
        leaveNetworkChanges_def initialState_def Let_def js_rem_7100 pushNode_def
        newBitcoinNode_def updateInstructions_def ringPosition_pi ids_def)

section \<open>Bounds on the number of nodes\<close>

text \<open>
  Claim C2. In every reachable state the array holds at least one and at most
  \<^verbatim>\<open>max(20, initialNodeCount * 1.5)\<close> nodes, that bound is 20, and \<^verbatim>\<open>nodeCount\<close> equals the
  length of the array. Every event the host can deliver there runs to completion. Once
  the array holds two nodes, no sequence of events brings it below two. A frame that shortens the array removes one node and
  starts with more than two nodes; a frame that lengthens it adds one node and starts
  either below \<^verbatim>\<open>maxNodes\<close> or with fewer than two nodes.
\<close>

theorem node_count_bounds:
  assumes "reachable s"
  shows "1 \<le> length (nodes s) \<and>
         real (length (nodes s)) \<le> max 20 (initialNodeCount s * 1.5) \<and>
         maxNodes s = 20 \<and> nodeCount s = length (nodes s) \<and>
         (\<forall>ev. possible ev s \<longrightarrow> (\<exists>s'. handle ev s = Inr s')) \<and>
         (\<forall>evs s'. 2 \<le> length (nodes s) \<and> run evs s = Inr s' \<longrightarrow> 2 \<le> length (nodes s')) \<and>
         (\<forall>e s'. onBeforeRender e s = Inr s' \<longrightarrow>
            (length (nodes s') < length (nodes s) \<longrightarrow>
               2 < length (nodes s) \<and> Suc (length (nodes s')) = length (nodes s)) \<and>
            (length (nodes s) < length (nodes s') \<longrightarrow>
               length (nodes s') = Suc (length (nodes s)) \<and>
               (real (length (nodes s)) < maxNodes s \<or> length (nodes s) < 2)))"
proof -
  note inv = reachable_invariant[OF assms]
  have m: "maxNodes s = 20" using inv by (simp add: maxNodes_def)
  have a: "real (length (nodes s)) \<le> max 20 (initialNodeCount s * 1.5)"
    using inv by simp
  have b: "\<forall>evs s'. 2 \<le> length (nodes s) \<and> run evs s = Inr s' \<longrightarrow> 2 \<le> length (nodes s')"
    using run_floor by blast
  have p: "\<forall>ev. possible ev s \<longrightarrow> (\<exists>s'. handle ev s = Inr s')"
  proof (intro allI impI)
    fix ev assume q: "possible ev s"
    have n: "nodes s \<noteq> []" using inv by auto
    show "\<exists>s'. handle ev s = Inr s'"
    proof (cases ev)
      case (Frame e)
      with q have "unitInterval (Math_random e)" by simp
      from onBeforeRender_completes[OF this n] Frame show ?thesis by simp
    qed simp_all
  qed
  have c: "\<forall>e s'. onBeforeRender e s = Inr s' \<longrightarrow>
            (length (nodes s') < length (nodes s) \<longrightarrow>
               2 < length (nodes s) \<and> Suc (length (nodes s')) = length (nodes s)) \<and>
            (length (nodes s) < length (nodes s') \<longrightarrow>
               length (nodes s') = Suc (length (nodes s)) \<and>
               (real (length (nodes s)) < maxNodes s \<or> length (nodes s) < 2))"
  proof (intro allI impI)
    fix e s' assume "onBeforeRender e s = Inr s'"
    from frame_length[OF this]
    show "(length (nodes s') < length (nodes s) \<longrightarrow>
               2 < length (nodes s) \<and> Suc (length (nodes s')) = length (nodes s)) \<and>
            (length (nodes s) < length (nodes s') \<longrightarrow>
               length (nodes s') = Suc (length (nodes s)) \<and>
               (real (length (nodes s)) < maxNodes s \<or> length (nodes s) < 2))"
      by (elim disjE) simp_all
  qed
  from inv m a p b c show ?thesis by simp
qed

text \<open>
  The theorem at the state the first frame produces: two nodes, and still two after two
  more frames with a pause in between.
\<close>

theorem node_count_bounds_witness:
  "reachable afterFirstFrame \<and> length (nodes afterFirstFrame) = 2 \<and>
   nodeCount afterFirstFrame = 2 \<and> maxNodes afterFirstFrame = 20 \<and>
   (\<exists>s'. run [Frame frame16, PlayPause, Frame frame16, PlayPause] afterFirstFrame = Inr s' \<and>
      2 \<le> length (nodes s'))"
proof -
  have l: "length (nodes afterFirstFrame) = 2" by (simp add: afterFirstFrame_nodes)
  have "\<exists>s'. run [Frame frame16, PlayPause, Frame frame16, PlayPause] afterFirstFrame = Inr s'"
    by (simp add: afterFirstFrame_def updateInstructions_def build_defs frame16_def
          onBeforeRender_def handleDiscoveryPhase_def discoveryCadence_def js_rem_zero
          discoverPeers_def elem_at_def advance_def)
  then obtain s' where r: "run [Frame frame16, PlayPause, Frame frame16, PlayPause] afterFirstFrame = Inr s'" ..
  note t = node_count_bounds[OF reachable_afterFirstFrame]
  from t have c: "nodeCount afterFirstFrame = length (nodes afterFirstFrame)" by blast
  from t have m: "maxNodes afterFirstFrame = 20" by blast
  from t have f: "\<forall>evs s'. 2 \<le> length (nodes afterFirstFrame) \<and> run evs afterFirstFrame = Inr s' \<longrightarrow>
      2 \<le> length (nodes s')" by blast
  have l2: "2 \<le> length (nodes afterFirstFrame)" using l by simp
  from f[rule_format, OF conjI, OF l2 r] have g: "2 \<le> length (nodes s')" .
  from c l have "nodeCount afterFirstFrame = 2" by simp
  with reachable_afterFirstFrame l m r g show ?thesis by blast
qed

section \<open>The step counter\<close>

text \<open>
  Claim C10. \<^verbatim>\<open>currentStep\<close> starts at 0, no event changes it, and it is 0 in every
  reachable state. With \<^verbatim>\<open>currentStep = 0\<close> and a positive speed both cadence tests,
  \<^verbatim>\<open>currentStep % (3 / speed) < 1\<close> and \<^verbatim>\<open>currentStep % (5 / speed) < 1\<close>, hold, so the
  discovery and the processing handler attempt their action in every frame they run.
\<close>

theorem cadence_always:
  "currentStep initialState = 0 \<and>
   (\<forall>ev s s'. handle ev s = Inr s' \<longrightarrow> currentStep s' = currentStep s) \<and>
   (\<forall>s. reachable s \<longrightarrow> currentStep s = 0 \<and> speed s = 1) \<and>
   (\<forall>s e. currentStep s = 0 \<and> 0 < speed s \<longrightarrow>
      discoveryCadence s \<and> processingCadence s \<and>
      handleDiscoveryPhase e s =
        (case discoverPeers e s of Inl err \<Rightarrow> Inl err | Inr s1 \<Rightarrow> Inr (advance 5000 SYNCING s1)) \<and>
      handleProcessingPhase e s =
        (case processTransaction e s of
           Inl err \<Rightarrow> Inl err | Inr s1 \<Rightarrow> Inr (advance 6000 NETWORK_CHANGES s1)))"
proof (intro conjI)
  show "currentStep initialState = 0" by (simp add: initialState_def)
  show "\<forall>ev s s'. handle ev s = Inr s' \<longrightarrow> currentStep s' = currentStep s"
    using handle_constants by blast
  show "\<forall>s. reachable s \<longrightarrow> currentStep s = 0 \<and> speed s = 1"
    using reachable_invariant by blast
  show "\<forall>s e. currentStep s = 0 \<and> 0 < speed s \<longrightarrow>
      discoveryCadence s \<and> processingCadence s \<and>
      handleDiscoveryPhase e s =
        (case discoverPeers e s of Inl err \<Rightarrow> Inl err | Inr s1 \<Rightarrow> Inr (advance 5000 SYNCING s1)) \<and>
      handleProcessingPhase e s =
        (case processTransaction e s of
           Inl err \<Rightarrow> Inl err | Inr s1 \<Rightarrow> Inr (advance 6000 NETWORK_CHANGES s1))"
    by (simp add: discoveryCadence_def processingCadence_def js_rem_zero
          handleDiscoveryPhase_def handleProcessingPhase_def)
qed

text \<open>The theorem at the state the first frame produces.\<close>

theorem cadence_always_witness:
  "reachable afterFirstFrame \<and> currentStep afterFirstFrame = 0 \<and> 0 < speed afterFirstFrame \<and>
   discoveryCadence afterFirstFrame \<and> processingCadence afterFirstFrame"
proof -
  from cadence_always reachable_afterFirstFrame
  have a: "currentStep afterFirstFrame = 0 \<and> speed afterFirstFrame = 1" by blast
  then have b: "currentStep afterFirstFrame = 0 \<and> 0 < speed afterFirstFrame" by simp
  with cadence_always
  have "discoveryCadence afterFirstFrame \<and> processingCadence afterFirstFrame" by blast
  with reachable_afterFirstFrame b show ?thesis by blast
qed

section \<open>Placing a new node\<close>

text \<open>
  Claim C8. The placement search is a total function: for every network and every
  sequence of random draws the loop stops with at most 10 candidates drawn and a counter
  of at most 10. Below 10 the accepted candidate lies on the base ring and is not too
  close to any node. At 10 all ten candidates were rejected, and the position is the last
  angle on a ring of \<^verbatim>\<open>radius * (1 + Math.random() * 0.4)\<close>, which for a draw in \<open>[0, 1)\<close> lies
  between 1.0 and 1.4 times the base radius; no distance is checked for it. Either way
  the new node is pushed at that position.
\<close>

theorem placement_terminates:
  "attempts (placementLoop e s k 0) \<le> 10 \<and>
   drawn (placementLoop e s k 0) - k \<le> 10 \<and>
   (attempts (placementLoop e s k 0) < 10 \<longrightarrow>
      findPosition e s k = candidate (placementLoop e s k 0) \<and>
      \<not> isTooClose s (findPosition e s k) \<and>
      Distance (findPosition e s k) origin = radius) \<and>
   (10 \<le> attempts (placementLoop e s k 0) \<longrightarrow>
      drawn (placementLoop e s k 0) = k + 10 \<and>
      isTooClose s (candidate (placementLoop e s k 0)) \<and>
      findPosition e s k =
        ringPosition (radius * (1 + Math_random e (k + 10) * 0.4)) (angle (placementLoop e s k 0)) \<and>
      (0 \<le> Math_random e (k + 10) \<and> Math_random e (k + 10) < 1 \<longrightarrow>
         1.0 * radius \<le> Distance (findPosition e s k) origin \<and>
         Distance (findPosition e s k) origin \<le> 1.4 * radius)) \<and>
   nodes (addNode (findPosition e s k) now s) = nodes s @ [allocated s] \<and>
   position (heap (addNode (findPosition e s k) now s) (allocated s)) = findPosition e s k"
proof -
  let ?p = "placementLoop e s k 0"
  note props = placementLoop_props[of 0 e s k, simplified]
  have a: "attempts ?p \<le> 10" using props by blast
  have d: "drawn ?p - k \<le> 10" using props by linarith
  have lt: "attempts ?p < 10 \<longrightarrow>
      findPosition e s k = candidate ?p \<and> \<not> isTooClose s (findPosition e s k) \<and>
      Distance (findPosition e s k) origin = radius"
  proof
    assume l: "attempts ?p < 10"
    then have f: "findPosition e s k = candidate ?p" by (simp add: findPosition_def Let_def)
    from props l have c: "\<not> isTooClose s (candidate ?p)" by blast
    from props have "candidate ?p = ringPosition radius (angle ?p)" by blast
    then have "Distance (candidate ?p) origin = radius"
      by (simp add: Distance_ring radius_def)
    with f c show "findPosition e s k = candidate ?p \<and> \<not> isTooClose s (findPosition e s k) \<and>
      Distance (findPosition e s k) origin = radius" by simp
  qed
  have ge: "10 \<le> attempts ?p \<longrightarrow>
      drawn ?p = k + 10 \<and> isTooClose s (candidate ?p) \<and>
      findPosition e s k =
        ringPosition (radius * (1 + Math_random e (k + 10) * 0.4)) (angle ?p) \<and>
      (0 \<le> Math_random e (k + 10) \<and> Math_random e (k + 10) < 1 \<longrightarrow>
         1.0 * radius \<le> Distance (findPosition e s k) origin \<and>
         Distance (findPosition e s k) origin \<le> 1.4 * radius)"
  proof
    assume g: "10 \<le> attempts ?p"
    with a have ten: "attempts ?p = 10" by simp
    with props have dr: "drawn ?p = k + 10" by simp
    from props ten have cl: "isTooClose s (candidate ?p)" by auto
    have f: "findPosition e s k =
        ringPosition (radius * (1 + Math_random e (k + 10) * 0.4)) (angle ?p)"
      using ten dr by (simp add: findPosition_def Let_def)
    have r: "0 \<le> Math_random e (k + 10) \<and> Math_random e (k + 10) < 1 \<longrightarrow>
         1.0 * radius \<le> Distance (findPosition e s k) origin \<and>
         Distance (findPosition e s k) origin \<le> 1.4 * radius"
      unfolding f Distance_ring by (simp add: radius_def)
    from dr cl f r show "drawn ?p = k + 10 \<and> isTooClose s (candidate ?p) \<and>
      findPosition e s k =
        ringPosition (radius * (1 + Math_random e (k + 10) * 0.4)) (angle ?p) \<and>
      (0 \<le> Math_random e (k + 10) \<and> Math_random e (k + 10) < 1 \<longrightarrow>
         1.0 * radius \<le> Distance (findPosition e s k) origin \<and>
         Distance (findPosition e s k) origin \<le> 1.4 * radius)" by blast
  qed
  from a d lt ge addNode_position[of "findPosition e s k" now s] show ?thesis by blast
qed

text \<open>
  The theorem where every draw is 0 on the initial network: each candidate is the place
  of \<^verbatim>\<open>node-0\<close>, ten are rejected, and the fallback position is produced.
\<close>

theorem placement_terminates_witness:
  "10 \<le> attempts (placementLoop frameZero initialState 1 0) \<and>
   0 \<le> Math_random frameZero (1 + 10) \<and> Math_random frameZero (1 + 10) < 1 \<and>
   drawn (placementLoop frameZero initialState 1 0) = 11 \<and>
   findPosition frameZero initialState 1 = \<lparr>vx = 5, vy = 0, vz = 0\<rparr> \<and>
   1.0 * radius \<le> Distance (findPosition frameZero initialState 1) origin \<and>
   Distance (findPosition frameZero initialState 1) origin \<le> 1.4 * radius"
proof -
  have h1: "10 \<le> attempts (placementLoop frameZero initialState 1 0)"
    using blocked_loop by simp
  have h2: "0 \<le> Math_random frameZero (1 + 10) \<and> Math_random frameZero (1 + 10) < 1"
    by (simp add: frameZero_def)
  have a: "angle (placementLoop frameZero initialState 1 0) = 0"
    by (simp add: placementLoop.simps blocked_at_zero) (simp add: frameZero_def)
  from placement_terminates[of frameZero initialState 1 undefined] h1
  have d: "drawn (placementLoop frameZero initialState 1 0) = 1 + 10"
    and f: "findPosition frameZero initialState 1 =
        ringPosition (radius * (1 + Math_random frameZero (1 + 10) * 0.4))
          (angle (placementLoop frameZero initialState 1 0))"
    and r: "0 \<le> Math_random frameZero (1 + 10) \<and> Math_random frameZero (1 + 10) < 1 \<longrightarrow>
         1.0 * radius \<le> Distance (findPosition frameZero initialState 1) origin \<and>
         Distance (findPosition frameZero initialState 1) origin \<le> 1.4 * radius"
    by blast+
  have p: "findPosition frameZero initialState 1 = \<lparr>vx = 5, vy = 0, vz = 0\<rparr>"
    unfolding f a by (simp add: ringPosition_def frameZero_def radius_def)
  from h1 h2 d p r show ?thesis by simp
qed

section \<open>Ids of joining nodes\<close>

text \<open>
  Claim C9 says that a node that joins gets an id no other node ever had. The id is
  \<^verbatim>\<open>node-\<close> followed by \<^verbatim>\<open>Date.now()\<close>, so two nodes that join while the clock shows the same
  value get the same id. The run below is reachable from the initial state: the first
  frame, one frame through each of Discovery, Syncing and Processing, then two frames
  of 2 ms and 16 ms early in NetworkChanges that both add a node while \<^verbatim>\<open>Date.now()\<close>
  returns 1700000000000. It ends with two nodes named \<^verbatim>\<open>node-1700000000000\<close>.
\<close>

theorem duplicate_id_reachable:
  "reachable secondJoin \<and>
   run [Frame (frame16\<lparr>getDeltaTime := 200\<rparr>), Frame (quietFrame 5001), Frame (quietFrame 8001),
        Frame (quietFrame 6001), Frame (joinFrame 2), Frame (joinFrame 16)] initialState
     = Inr secondJoin \<and>
   Date_now (joinFrame 2) = Date_now (joinFrame 16) \<and>
   ids secondJoin = [''node-0'', ''node-1'', ''node-1700000000000'', ''node-1700000000000''] \<and>
   \<not> distinct (ids secondJoin)"
proof -
  have r: "run [Frame (frame16\<lparr>getDeltaTime := 200\<rparr>), Frame (quietFrame 5001), Frame (quietFrame 8001),
        Frame (quietFrame 6001), Frame (joinFrame 2), Frame (joinFrame 16)] initialState
     = Inr secondJoin"
    by (simp add: first_frame_result step_discovery step_syncing step_processing
          step_first_join step_second_join)
  have i: "ids secondJoin = [''node-0'', ''node-1'', ''node-1700000000000'', ''node-1700000000000'']"
    by (simp add: ids_def trace_defs)
  have d: "Date_now (joinFrame 2) = Date_now (joinFrame 16)" by (simp add: joinFrame_def)
  from reachable_secondJoin r i d show ?thesis by simp
qed


end
